theory Spec2Isabelle
  imports Main "HOL-Library.Word"
begin

section \<open>The stream library: data model\<close>

text \<open>
  The library represents a Stream as a Go closure from an Observer to a Subscription, and
  every operator builds new closures that capture mutable local variables (\<open>i\<close> in
  \<open>Take\<close>, \<open>numCompleted\<close> in \<open>Merge\<close>, \<open>innerSub\<close> and \<open>outerCompleted\<close> in
  \<open>Flatten\<close>, \<open>obs\<close> in \<open>Accept\<close>). Some of these variables hold closures themselves.
  The model therefore represents each closure of \<open>stream.go\<close> by a constructor that
  carries the variables the closure captures: immutable captures by value, mutable ones
  by the address of a cell of an explicit store. Calling a closure is interpreting its
  constructor, and the interpreter's equation for a constructor is the closure's body.

  Values of the element type \<open>T\<close> are integers or Streams (the latter for \<open>Flatten\<close>).
  The functions a caller passes to \<open>Map\<close>, \<open>Filter\<close> and \<open>Reduce\<close> work on integers.
  Go's \<open>int\<close> is taken to be 64 bits wide.
\<close>

type_synonym addr = nat
type_synonym goint = "64 word"

datatype error = NilDeref | CloseOfClosedChannel | IllTyped | OutOfFuel

datatype val = VInt int | VStream stream
and stream =
    From "val list"
  | Periodic
  | AcceptStream addr bool
  | FromListener addr
  | Map "int \<Rightarrow> val" stream
  | Filter "int \<Rightarrow> bool" stream
  | Take goint stream
  | Merge "stream list"
  | Reduce int "int \<Rightarrow> int \<Rightarrow> int" stream
  | StartWith val stream
  | Flatten stream

text \<open>
  What the caller's own callbacks do is recorded in a trace. The library never calls an
  Observer's \<open>Error\<close>, so there is no event for it.
\<close>

datatype event =
    NextEv val
  | CompleteEv
  | CompletedEv
  | TickerStopEv addr
  | ListenEv addr
  | CloseEv addr

datatype collector = ToSliceFn addr

datatype errfn = UserError

text \<open>
  \<open>Observer\<close> is the struct of three function-valued fields, each of which may be nil.
  \<open>UserNext decide\<close> is a callback supplied by the caller: it records the value and
  answers \<open>decide\<close> of what it has seen so far and the value. A callback of the caller does
  not call back into the library. The other constructors are the closures the operators
  create. Calls are atomic and run one after the other: interleavings of goroutines inside
  a call are not modelled.
\<close>

datatype observer =
    Observer (Next: "nextfn option") (Error: "errfn option") (Complete: "compfn option")
and nextfn =
    UserNext "event list \<Rightarrow> val \<Rightarrow> bool"
  | MapNext "int \<Rightarrow> val" observer
  | FilterNext "int \<Rightarrow> bool" observer
  | TakeNext addr goint observer
  | ReduceNext addr "int \<Rightarrow> int \<Rightarrow> int" observer
  | FlatOuterNext addr addr observer
  | FlatInnerNext observer
  | CollectNext addr collector
and compfn =
    UserComplete
  | MergeComplete addr nat observer
  | FlatInnerComplete addr addr observer
  | FlatOuterComplete addr

datatype sub =
    NoopSub
  | PeriodicUnsub addr addr addr observer
  | AcceptUnsub addr observer bool
  | ListenerUnsub addr observer
  | MergeUnsub "sub list"
  | FlattenUnsub sub addr

datatype goroutine = PeriodicLoop addr addr sub observer

record world =
  ints :: "addr \<Rightarrow> goint"
  flags :: "addr \<Rightarrow> bool"
  accs :: "addr \<Rightarrow> int"
  subs :: "addr \<Rightarrow> sub option"
  obss :: "addr \<Rightarrow> observer option"
  slices :: "addr \<Rightarrow> val list"
  listeners :: "addr \<Rightarrow> observer option"
  procs :: "addr \<Rightarrow> goroutine option"
  fresh :: addr
  trace :: "event list"

definition log :: "event \<Rightarrow> world \<Rightarrow> world" where
  "log e w = w\<lparr>trace := trace w @ [e]\<rparr>"

section \<open>Calling the closures\<close>

text \<open>
  \<open>Complete_if_set observer\<close> is the statement
  \<^verbatim>\<open>if observer.Complete != nil { observer.Complete() }\<close>,
  the only form in which the library calls \<open>Complete\<close>.
\<close>

fun Complete_if_set :: "observer \<Rightarrow> world \<Rightarrow> world" where
  "Complete_if_set (Observer n e None) w = w"
| "Complete_if_set (Observer n e (Some UserComplete)) w = log CompleteEv w"
| "Complete_if_set (Observer n e (Some (MergeComplete r k observer))) w =
     (let w1 = w\<lparr>ints := (ints w)(r := ints w r + 1)\<rparr>
      in if ints w1 r = of_nat k then Complete_if_set observer w1 else w1)"
| "Complete_if_set (Observer n e (Some (FlatInnerComplete rs rf observer))) w =
     (let w1 = w\<lparr>subs := (subs w)(rs := None)\<rparr>
      in if flags w1 rf then Complete_if_set observer w1 else w1)"
| "Complete_if_set (Observer n e (Some (FlatOuterComplete rf))) w =
     w\<lparr>flags := (flags w)(rf := True)\<rparr>"

text \<open>
  Invoking a Subscription. The one stored in \<open>Flatten\<close>'s \<open>innerSub\<close> is read from the
  store, so the recursion is bounded by fuel there.
\<close>

fun invoke :: "nat \<Rightarrow> sub \<Rightarrow> world \<Rightarrow> error + world"
and invoke_all :: "nat \<Rightarrow> sub list \<Rightarrow> world \<Rightarrow> error + world" where
  "invoke fuel NoopSub w = Inr w"
| "invoke fuel (PeriodicUnsub tk once done observer) w =
     (if flags w once then Inr w
      else let w1 = log (TickerStopEv tk) w
           in if flags w1 done then Inl CloseOfClosedChannel
              else let w2 = w1\<lparr>flags := (flags w1)(done := True)\<rparr>;
                       w3 = Complete_if_set observer w2
                   in Inr (w3\<lparr>flags := (flags w3)(once := True)\<rparr>))"
| "invoke fuel (AcceptUnsub a observer completed) w =
     (let w1 = w\<lparr>obss := (obss w)(a := None)\<rparr>;
          w2 = Complete_if_set observer w1
      in Inr (if completed then log CompletedEv w2 else w2))"
| "invoke fuel (ListenerUnsub l observer) w =
     (let w1 = log (CloseEv l) (w\<lparr>listeners := (listeners w)(l := None)\<rparr>)
      in Inr (Complete_if_set observer w1))"
| "invoke fuel (MergeUnsub unsubscribes) w = invoke_all fuel unsubscribes w"
| "invoke fuel (FlattenUnsub unsubscribe rs) w =
     (case invoke fuel unsubscribe w of
        Inl e \<Rightarrow> Inl e
      | Inr w1 \<Rightarrow>
          (case subs w1 rs of
             None \<Rightarrow> Inr w1
           | Some innerSub \<Rightarrow>
               (case fuel of 0 \<Rightarrow> Inl OutOfFuel | Suc f \<Rightarrow> invoke f innerSub w1)))"
| "invoke_all fuel [] w = Inr w"
| "invoke_all fuel (unsub # rest) w =
     (case invoke fuel unsub w of Inl e \<Rightarrow> Inl e | Inr w1 \<Rightarrow> invoke_all fuel rest w1)"

text \<open>The two loops of the library, over the function they call on each element.\<close>

fun from_loop :: "(val \<Rightarrow> world \<Rightarrow> error + bool \<times> world) \<Rightarrow> val list \<Rightarrow> world \<Rightarrow> error + world" where
  "from_loop nxt [] w = Inr w"
| "from_loop nxt (v # args) w =
     (case nxt v w of
        Inl e \<Rightarrow> Inl e
      | Inr (ok, w1) \<Rightarrow> if \<not> ok then Inr w1 else from_loop nxt args w1)"

fun merge_loop :: "(stream \<Rightarrow> world \<Rightarrow> error + sub \<times> world) \<Rightarrow> stream list \<Rightarrow> world
    \<Rightarrow> error + sub list \<times> world" where
  "merge_loop act [] w = Inr ([], w)"
| "merge_loop act (s # streams) w =
     (case act s w of
        Inl e \<Rightarrow> Inl e
      | Inr (u, w1) \<Rightarrow>
          (case merge_loop act streams w1 of
             Inl e \<Rightarrow> Inl e
           | Inr (us, w2) \<Rightarrow> Inr (u # us, w2)))"

lemma from_loop_cong [fundef_cong]:
  "args = args' \<Longrightarrow> w = w' \<Longrightarrow> (\<And>v u. v \<in> set args' \<Longrightarrow> nxt v u = nxt' v u)
   \<Longrightarrow> from_loop nxt args w = from_loop nxt' args' w'"
  by (induction args' arbitrary: args w w') (auto split: sum.splits)

lemma merge_loop_cong [fundef_cong]:
  "streams = streams' \<Longrightarrow> w = w' \<Longrightarrow> (\<And>s u. s \<in> set streams' \<Longrightarrow> act s u = act' s u)
   \<Longrightarrow> merge_loop act streams w = merge_loop act' streams' w'"
  by (induction streams' arbitrary: streams w w') (auto split: sum.splits)

text \<open>
  \<open>observer_Next fuel observer v\<close> is the call \<^verbatim>\<open>observer.Next(v)\<close>: a nil \<open>Next\<close>
  panics, a closure of the library runs its body. \<open>activate fuel stream observer\<close> is the
  call \<^verbatim>\<open>stream(observer)\<close>, one equation per Stream closure of \<open>stream.go\<close>. Local
  variables that a closure captures and assigns are allocated in the store at \<open>fresh\<close>.
  Fuel is used up only where \<open>Flatten\<close> calls a Stream it received as a value.
\<close>

function (sequential) observer_Next :: "nat \<Rightarrow> observer \<Rightarrow> val \<Rightarrow> world \<Rightarrow> error + bool \<times> world"
and activate :: "nat \<Rightarrow> stream \<Rightarrow> observer \<Rightarrow> world \<Rightarrow> error + sub \<times> world" where
  "observer_Next fuel (Observer None e c) v w = Inl NilDeref"
| "observer_Next fuel (Observer (Some (UserNext decide)) e c) v w =
     Inr (decide (trace w) v, log (NextEv v) w)"
| "observer_Next fuel (Observer (Some (MapNext f observer)) e c) v w =
     (case v of
        VInt x \<Rightarrow> observer_Next fuel observer (f x) w
      | VStream s \<Rightarrow> Inl IllTyped)"
| "observer_Next fuel (Observer (Some (FilterNext f observer)) e c) v w =
     (case v of
        VInt x \<Rightarrow> if f x then observer_Next fuel observer v w else Inr (True, w)
      | VStream s \<Rightarrow> Inl IllTyped)"
| "observer_Next fuel (Observer (Some (TakeNext r n observer)) e c) v w =
     (case observer_Next fuel observer v w of
        Inl err \<Rightarrow> Inl err
      | Inr (ok, w1) \<Rightarrow>
          (let w2 = w1\<lparr>ints := (ints w1)(r := ints w1 r + 1)\<rparr>
           in if \<not> ok \<or> ints w2 r = n then Inr (False, w2) else Inr (ok, w2)))"
| "observer_Next fuel (Observer (Some (ReduceNext r f observer)) e c) v w =
     (case v of
        VInt x \<Rightarrow>
          (let w1 = w\<lparr>accs := (accs w)(r := f (accs w r) x)\<rparr>
           in observer_Next fuel observer (VInt (accs w1 r)) w1)
      | VStream s \<Rightarrow> Inl IllTyped)"
| "observer_Next fuel (Observer (Some (FlatOuterNext rs rf observer)) e c) v w =
     (case v of
        VInt x \<Rightarrow> Inl IllTyped
      | VStream s \<Rightarrow>
          (case fuel of
             0 \<Rightarrow> Inl OutOfFuel
           | Suc fuel' \<Rightarrow>
               (case (case subs w rs of None \<Rightarrow> Inr w | Some innerSub \<Rightarrow> invoke fuel' innerSub w) of
                  Inl err \<Rightarrow> Inl err
                | Inr w1 \<Rightarrow>
                    (case activate fuel' s
                            (Observer (Some (FlatInnerNext observer)) (Error observer)
                               (Some (FlatInnerComplete rs rf observer))) w1 of
                       Inl err \<Rightarrow> Inl err
                     | Inr (innerSub, w2) \<Rightarrow>
                         Inr (True, w2\<lparr>subs := (subs w2)(rs := Some innerSub)\<rparr>)))))"
| "observer_Next fuel (Observer (Some (FlatInnerNext observer)) e c) v w =
     observer_Next fuel observer v w"
| "observer_Next fuel (Observer (Some (CollectNext x (ToSliceFn a))) e c) v w =
     (let w1 = w\<lparr>slices := (slices w)(a := slices w a @ [v])\<rparr>
      in Inr (True, w1\<lparr>slices := (slices w1)(x := slices w1 a)\<rparr>))"
| "activate fuel (From args) observer w =
     (case from_loop (observer_Next fuel observer) args w of
        Inl err \<Rightarrow> Inl err
      | Inr w1 \<Rightarrow> Inr (NoopSub, Complete_if_set observer w1))"
| "activate fuel Periodic observer w =
     (let i = fresh w; closeCh = i + 1; done = i + 2; ticker = i + 3;
          unsub = PeriodicUnsub ticker closeCh done observer
      in Inr (unsub,
              w\<lparr>ints := (ints w)(i := 0),
                flags := (flags w)(closeCh := False, done := False),
                procs := (procs w)(ticker := Some (PeriodicLoop i done unsub observer)),
                fresh := i + 4\<rparr>))"
| "activate fuel (AcceptStream obs completed) observer w =
     Inr (AcceptUnsub obs observer completed, w\<lparr>obss := (obss w)(obs := Some observer)\<rparr>)"
| "activate fuel (FromListener listener) observer w =
     Inr (ListenerUnsub listener observer,
          log (ListenEv listener) (w\<lparr>listeners := (listeners w)(listener := Some observer)\<rparr>))"
| "activate fuel (Map f source) observer w =
     activate fuel source
       (Observer (Some (MapNext f observer)) (Error observer) (Complete observer)) w"
| "activate fuel (Filter f source) observer w =
     activate fuel source
       (Observer (Some (FilterNext f observer)) (Error observer) (Complete observer)) w"
| "activate fuel (Take n source) observer w =
     (let i = fresh w
      in activate fuel source
           (Observer (Some (TakeNext i n observer)) (Error observer) (Complete observer))
           (w\<lparr>ints := (ints w)(i := 0), fresh := Suc i\<rparr>))"
| "activate fuel (Merge streams) observer w =
     (let numCompleted = fresh w
      in case merge_loop
                (\<lambda>stream. activate fuel stream
                   (Observer (Next observer) (Error observer)
                      (Some (MergeComplete numCompleted (length streams) observer))))
                streams (w\<lparr>ints := (ints w)(numCompleted := 0), fresh := Suc numCompleted\<rparr>) of
           Inl err \<Rightarrow> Inl err
         | Inr (unsubscribes, w1) \<Rightarrow> Inr (MergeUnsub unsubscribes, w1))"
| "activate fuel (Reduce initialValue f source) observer w =
     (let current = fresh w
      in case observer_Next fuel observer (VInt initialValue)
                (w\<lparr>accs := (accs w)(current := initialValue), fresh := Suc current\<rparr>) of
           Inl err \<Rightarrow> Inl err
         | Inr (ok, w1) \<Rightarrow>
             if \<not> ok then Inr (NoopSub, w1)
             else activate fuel source
                    (Observer (Some (ReduceNext current f observer)) (Error observer)
                       (Complete observer)) w1)"
| "activate fuel (StartWith data source) observer w =
     (case observer_Next fuel observer data w of
        Inl err \<Rightarrow> Inl err
      | Inr (ok, w1) \<Rightarrow>
          if \<not> ok then Inr (NoopSub, w1) else activate fuel source observer w1)"
| "activate fuel (Flatten outer) observer w =
     (let innerSub = fresh w; outerCompleted = Suc innerSub
      in case activate fuel outer
                (Observer (Some (FlatOuterNext innerSub outerCompleted observer)) (Error observer)
                   (Some (FlatOuterComplete outerCompleted)))
                (w\<lparr>subs := (subs w)(innerSub := None),
                   flags := (flags w)(outerCompleted := False),
                   fresh := Suc outerCompleted\<rparr>) of
           Inl err \<Rightarrow> Inl err
         | Inr (unsubscribe, w1) \<Rightarrow> Inr (FlattenUnsub unsubscribe innerSub, w1))"
  by pat_completeness auto
termination
  apply (relation "inv_image (less_than <*lex*> less_than <*lex*> less_than)
     (\<lambda>x. case x of Inl (fuel, obs, v, w) \<Rightarrow> (fuel, 0::nat, size obs)
                   | Inr (fuel, s, obs, w) \<Rightarrow> (fuel, 1, size s))")
  apply (auto simp: termination_simp)
  done

section \<open>What runs after activation\<close>

text \<open>
  \<open>Accept\<close> declares \<open>obs\<close> (nil) and returns the push function and the Stream, both
  closures over \<open>obs\<close>; \<open>accept\<close> is the push function.
\<close>

definition Accept :: "bool \<Rightarrow> world \<Rightarrow> (addr \<times> stream) \<times> world" where
  "Accept completed w =
     (let obs = fresh w
      in ((obs, AcceptStream obs completed),
          w\<lparr>obss := (obss w)(obs := None), fresh := Suc obs\<rparr>))"

definition accept :: "nat \<Rightarrow> addr \<Rightarrow> val \<Rightarrow> world \<Rightarrow> error + bool \<times> world" where
  "accept fuel obs t w =
     (case obss w obs of
        None \<Rightarrow> Inr (False, w)
      | Some observer \<Rightarrow> observer_Next fuel observer t w)"

text \<open>
  One turn of \<open>Periodic\<close>'s goroutine, taken when the ticker fires: the goroutine has
  returned once \<open>done\<close> is closed; otherwise it runs the body of \<open>case <-ticker.C\<close>.
\<close>

definition tick :: "nat \<Rightarrow> addr \<Rightarrow> world \<Rightarrow> error + world" where
  "tick fuel ticker w =
     (case procs w ticker of
        None \<Rightarrow> Inr w
      | Some (PeriodicLoop i done unsub observer) \<Rightarrow>
          if flags w done then Inr (w\<lparr>procs := (procs w)(ticker := None)\<rparr>)
          else (case observer_Next fuel observer (VInt (sint (ints w i))) w of
                  Inl err \<Rightarrow> Inl err
                | Inr (ok, w1) \<Rightarrow>
                    (case (if \<not> ok then invoke fuel unsub w1 else Inr w1) of
                       Inl err \<Rightarrow> Inl err
                     | Inr w2 \<Rightarrow> Inr (w2\<lparr>ints := (ints w2)(i := ints w2 i + 1)\<rparr>))))"

text \<open>
  Modelled from the spec: the external \<open>Listener\<close> object, of which the repository has
  only the interface. It holds one callback, \<open>Listen\<close> replaces it and \<open>Close\<close> removes
  it; \<open>emit\<close> is the listener calling the registered callback
  \<^verbatim>\<open>func(e T) { observer.Next(e) }\<close>, which drops the result.
\<close>

definition emit :: "nat \<Rightarrow> addr \<Rightarrow> val \<Rightarrow> world \<Rightarrow> error + world" where
  "emit fuel listener e w =
     (case listeners w listener of
        None \<Rightarrow> Inr w
      | Some observer \<Rightarrow>
          (case observer_Next fuel observer e w of
             Inl err \<Rightarrow> Inl err
           | Inr (ok, w1) \<Rightarrow> Inr w1))"

section \<open>Terminal consumers and collectors\<close>

definition Subscribe :: "nat \<Rightarrow> observer \<Rightarrow> stream \<Rightarrow> world \<Rightarrow> error + sub \<times> world" where
  "Subscribe fuel obs source w = activate fuel source obs w"

definition Observe :: "(event list \<Rightarrow> val \<Rightarrow> bool) \<Rightarrow> observer" where
  "Observe f = Observer (Some (UserNext f)) None None"

definition ForEach :: observer where
  "ForEach = Observer (Some (UserNext (\<lambda>seen t. True))) None None"

definition ToSlice :: "world \<Rightarrow> collector \<times> world" where
  "ToSlice w =
     (let a = fresh w
      in (ToSliceFn a, w\<lparr>slices := (slices w)(a := []), fresh := Suc a\<rparr>))"

text \<open>
  \<open>Collect fn\<close> declares \<open>x\<close> and builds the Observer; the function it returns,
  \<open>Collect_run\<close>, activates the source and returns \<open>x\<close>.
\<close>

definition Collect :: "collector \<Rightarrow> world \<Rightarrow> (addr \<times> observer) \<times> world" where
  "Collect fn w =
     (let x = fresh w
      in ((x, Observer (Some (CollectNext x fn)) None None),
          w\<lparr>slices := (slices w)(x := []), fresh := Suc x\<rparr>))"

definition Collect_run :: "nat \<Rightarrow> addr \<times> observer \<Rightarrow> stream \<Rightarrow> world \<Rightarrow> error + val list \<times> world" where
  "Collect_run fuel xo source w =
     (case activate fuel source (snd xo) w of
        Inl err \<Rightarrow> Inl err
      | Inr (unused, w1) \<Rightarrow> Inr (slices w1 (fst xo), w1))"

text \<open>The store before anything is allocated.\<close>

definition world0 :: world where
  "world0 = \<lparr>ints = (\<lambda>a. 0), flags = (\<lambda>a. False), accs = (\<lambda>a. 0), subs = (\<lambda>a. None),
     obss = (\<lambda>a. None), slices = (\<lambda>a. []), listeners = (\<lambda>a. None), procs = (\<lambda>a. None),
     fresh = 0, trace = []\<rparr>"

section \<open>Observing a run\<close>

text \<open>
  The properties below are about what the caller's Observer sees. \<open>Subscriber decide\<close> is an Observer
  of the caller with a \<open>Next\<close> and a \<open>Complete\<close> callback; \<open>events\<close> reads the trace off
  the result of a call.
\<close>

definition Subscriber :: "(event list \<Rightarrow> val \<Rightarrow> bool) \<Rightarrow> observer" where
  "Subscriber decide = Observer (Some (UserNext decide)) None (Some UserComplete)"

definition events :: "error + 'a \<times> world \<Rightarrow> error + event list" where
  "events r = (case r of Inl err \<Rightarrow> Inl err | Inr (x, w) \<Rightarrow> Inr (trace w))"

text \<open>
  What happens to an activated pipeline afterwards is a sequence of calls from outside the
  library: a value pushed through the push function of an \<open>Accept\<close>, a tick of a
  \<open>Periodic\<close> ticker, a value emitted by a listener, a Subscription invoked.
\<close>

datatype call = Push addr val | Tick addr | Emit addr val | Cancel sub

fun run :: "nat \<Rightarrow> call list \<Rightarrow> world \<Rightarrow> error + world" where
  "run fuel [] w = Inr w"
| "run fuel (Push obs t # calls) w =
     (case accept fuel obs t w of Inl err \<Rightarrow> Inl err | Inr (ok, w1) \<Rightarrow> run fuel calls w1)"
| "run fuel (Tick ticker # calls) w =
     (case tick fuel ticker w of Inl err \<Rightarrow> Inl err | Inr w1 \<Rightarrow> run fuel calls w1)"
| "run fuel (Emit listener e # calls) w =
     (case emit fuel listener e w of Inl err \<Rightarrow> Inl err | Inr w1 \<Rightarrow> run fuel calls w1)"
| "run fuel (Cancel unsub # calls) w =
     (case invoke fuel unsub w of Inl err \<Rightarrow> Inl err | Inr w1 \<Rightarrow> run fuel calls w1)"

section \<open>Invariants of the store\<close>

text \<open>
  The only panic a nil callback can cause is the call of a nil function value. The library
  never calls \<open>Error\<close>, and calls \<open>Complete\<close> only as \<open>Complete_if_set\<close>; what is left is
  \<open>Next\<close>. \<open>Next_set observer\<close> says that the \<open>Next\<close> of the Observer is set, and so is
  the \<open>Next\<close> of every Observer its \<open>Next\<close> closure forwards to. \<open>stored_ok\<close> says so of
  every Observer registered in the store, and \<open>no_panic\<close> of a result that it is not the
  nil panic and leaves the store that way.
\<close>

fun Next_set :: "observer \<Rightarrow> bool"
and closure_Next_set :: "nextfn \<Rightarrow> bool" where
  "Next_set (Observer n e c) = (case n of None \<Rightarrow> False | Some nf \<Rightarrow> closure_Next_set nf)"
| "closure_Next_set (UserNext decide) = True"
| "closure_Next_set (MapNext f observer) = Next_set observer"
| "closure_Next_set (FilterNext f observer) = Next_set observer"
| "closure_Next_set (TakeNext r n observer) = Next_set observer"
| "closure_Next_set (ReduceNext r f observer) = Next_set observer"
| "closure_Next_set (FlatOuterNext rs rf observer) = Next_set observer"
| "closure_Next_set (FlatInnerNext observer) = Next_set observer"
| "closure_Next_set (CollectNext x fn) = True"

definition stored_ok :: "world \<Rightarrow> bool" where
  "stored_ok w =
     ((\<forall>a ob. obss w a = Some ob \<longrightarrow> Next_set ob)
      \<and> (\<forall>l ob. listeners w l = Some ob \<longrightarrow> Next_set ob)
      \<and> (\<forall>t i d u ob. procs w t = Some (PeriodicLoop i d u ob) \<longrightarrow> Next_set ob))"

definition no_panic :: "error + 'a \<times> world \<Rightarrow> bool" where
  "no_panic r = (case r of Inl err \<Rightarrow> err \<noteq> NilDeref | Inr (x, w) \<Rightarrow> stored_ok w)"

text \<open>
  \<open>Flatten_outer\<close> is the Observer that \<open>Flatten\<close> hands to the outer Stream and
  \<open>Flatten_inner\<close> the one its \<open>Next\<close> hands to every inner Stream.
\<close>

definition Flatten_outer :: "addr \<Rightarrow> addr \<Rightarrow> observer \<Rightarrow> observer" where
  "Flatten_outer innerSub outerCompleted observer =
     Observer (Some (FlatOuterNext innerSub outerCompleted observer)) (Error observer)
       (Some (FlatOuterComplete outerCompleted))"

definition Flatten_inner :: "addr \<Rightarrow> addr \<Rightarrow> observer \<Rightarrow> observer" where
  "Flatten_inner innerSub outerCompleted observer =
     Observer (Some (FlatInnerNext observer)) (Error observer)
       (Some (FlatInnerComplete innerSub outerCompleted observer))"

text \<open>
  For inner Streams built by \<open>Accept\<close>, a Stream is active while its \<open>obs\<close> holds an
  Observer. The outer Stream is built by \<open>Accept\<close> as well, with \<open>obs\<close> at address
  \<open>outer\<close>. \<open>flatten_call\<close> admits the calls of such a run: delivering an inner Stream
  through the outer push function, pushing a value into an inner Stream, and cancelling.
  \<open>flatten_inv\<close> is what every such call preserves.
\<close>

fun flatten_call :: "addr \<Rightarrow> sub \<Rightarrow> call \<Rightarrow> bool" where
  "flatten_call outer cancel (Push a (VStream (AcceptStream inner completed))) =
     (a = outer \<longrightarrow> inner \<noteq> outer)"
| "flatten_call outer cancel (Push a t) = (a \<noteq> outer)"
| "flatten_call outer cancel (Cancel unsub) = (unsub = cancel)"
| "flatten_call outer cancel c = False"

definition flatten_inv :: "addr \<Rightarrow> addr \<Rightarrow> addr \<Rightarrow> observer \<Rightarrow> world \<Rightarrow> bool" where
  "flatten_inv outer rs rf observer w =
     ((obss w outer = None \<or> obss w outer = Some (Flatten_outer rs rf observer))
      \<and> (case subs w rs of
            None \<Rightarrow> \<forall>b. b \<noteq> outer \<longrightarrow> obss w b = None
          | Some u \<Rightarrow>
              \<exists>a c. a \<noteq> outer \<and> u = AcceptUnsub a (Flatten_inner rs rf observer) c
                \<and> obss w a = Some (Flatten_inner rs rf observer)
                \<and> (\<forall>b. b \<noteq> outer \<and> b \<noteq> a \<longrightarrow> obss w b = None)))"

section \<open>The tests of the repository\<close>

text \<open>
  The pipelines of \<open>stream_test.go\<close>, run in the model: the counts and flags the tests
  assert are read off the traces. The timed tests become a number of ticks.
\<close>

lemma TestFrom_Reduce_Observe:
  "events (activate fuel (Reduce 10 (\<lambda>acc i. acc + i) (From [VInt 1, VInt 2, VInt 3]))
             (Observe (\<lambda>seen t. True)) world0)
   = Inr [NextEv (VInt 10), NextEv (VInt 11), NextEv (VInt 13), NextEv (VInt 16)]"
  by (simp add: events_def Observe_def world0_def log_def)

lemma TestFrom_Flatten_ForEach:
  "events (activate (Suc fuel)
             (Flatten (Map (\<lambda>x. VStream (From [VInt x])) (From [VInt 1, VInt 3, VInt 5])))
             ForEach world0)
   = Inr [NextEv (VInt 1), NextEv (VInt 3), NextEv (VInt 5)]"
  by (simp add: events_def ForEach_def world0_def log_def)

lemma TestFrom_Take_Map_StartWith_ForEach:
  "events (activate fuel
             (StartWith (VInt 10) (Map (\<lambda>i. VInt (i * 2))
                (Take 5 (From [VInt 1, VInt 2, VInt 3, VInt 4, VInt 5, VInt 6]))))
             ForEach world0)
   = Inr [NextEv (VInt 10), NextEv (VInt 2), NextEv (VInt 4), NextEv (VInt 6), NextEv (VInt 8),
          NextEv (VInt 10)]"
  by (simp add: events_def ForEach_def world0_def log_def)

lemma TestPeriodic_Filter_Take_Map_Subscribe:
  "(case Subscribe fuel (Subscriber (\<lambda>seen t. True))
           (Map (\<lambda>i. VInt (i * 2)) (Take 5 (Filter (\<lambda>i. i mod 2 = 0) Periodic))) world0 of
      Inl err \<Rightarrow> Inl err
    | Inr (cancel, w1) \<Rightarrow>
        map_sum id trace (run fuel [Tick 4, Tick 4, Tick 4, Tick 4, Tick 4, Tick 4, Tick 4, Tick 4, Tick 4, Tick 4] w1))
   = Inr [NextEv (VInt 0), NextEv (VInt 4), NextEv (VInt 8), NextEv (VInt 12), NextEv (VInt 16),
          TickerStopEv 4, CompleteEv]"
  by (simp add: Subscribe_def Subscriber_def world0_def log_def tick_def Let_def)

lemma TestFrom_Periodic_Merge_Take_Map_ForEach:
  "(case activate fuel (Map (\<lambda>i. VInt (i * 2)) (Take 5 (Merge [Periodic, From [VInt 10, VInt 20]])))
           ForEach world0 of
      Inl err \<Rightarrow> Inl err
    | Inr (cancel, w1) \<Rightarrow>
        map_sum id trace (run fuel [Tick 5, Tick 5, Tick 5, Tick 5, Tick 5] w1))
   = Inr [NextEv (VInt 20), NextEv (VInt 40), NextEv (VInt 0), NextEv (VInt 2), NextEv (VInt 4),
          TickerStopEv 5]"
  by (simp add: ForEach_def world0_def log_def tick_def Let_def)

lemma TestAccept_Subscribe:
  "(case Accept True world0 of
      ((obs, s), w) \<Rightarrow>
        (case Subscribe fuel (Subscriber (\<lambda>seen t. True)) s w of
           Inl err \<Rightarrow> Inl err
         | Inr (cancel, w1) \<Rightarrow>
             map_sum id trace
               (run fuel [Push obs (VInt 0), Push obs (VInt 1), Push obs (VInt 2), Cancel cancel] w1)))
   = Inr [NextEv (VInt 0), NextEv (VInt 1), NextEv (VInt 2), CompleteEv, CompletedEv]"
  by (simp add: Accept_def Subscribe_def Subscriber_def world0_def log_def accept_def)

lemma TestFromListener:
  "(case activate fuel (FromListener 0) ForEach world0 of
      Inl err \<Rightarrow> Inl err
    | Inr (cancel, w1) \<Rightarrow>
        map_sum id (\<lambda>w2. (trace w2, listeners w2 0))
          (run fuel [Emit 0 (VInt 0), Emit 0 (VInt 1), Emit 0 (VInt 2), Cancel cancel] w1))
   = Inr ([ListenEv 0, NextEv (VInt 0), NextEv (VInt 1), NextEv (VInt 2), CloseEv 0], None)"
  by (simp add: ForEach_def world0_def log_def emit_def)

section \<open>What a completion leaves untouched\<close>

lemma Complete_if_set_frame:
  "obss (Complete_if_set observer w) = obss w"
  "listeners (Complete_if_set observer w) = listeners w"
  "procs (Complete_if_set observer w) = procs w"
  "fresh (Complete_if_set observer w) = fresh w"
  "slices (Complete_if_set observer w) = slices w"
  "accs (Complete_if_set observer w) = accs w"
  by (induction observer w rule: Complete_if_set.induct; simp add: log_def Let_def)+

section \<open>Invoking a Subscription twice\<close>

text \<open>
  \<open>Periodic\<close> wraps its cancellation in a \<open>sync.Once\<close>, and \<open>From\<close> returns a function
  that does nothing: invoking either a second time changes nothing.
\<close>

lemma Periodic_cancel_idempotent:
  "invoke fuel (PeriodicUnsub tk once done observer) w = Inr w1
   \<Longrightarrow> invoke fuel (PeriodicUnsub tk once done observer) w1 = Inr w1"
  by (auto simp: Let_def split: if_splits)

lemma Periodic_cancel_twice:
  "activate fuel Periodic (Subscriber decide) w = Inr (cancel, w1) \<Longrightarrow>
   \<exists>w2. invoke fuel cancel w1 = Inr w2 \<and> invoke fuel cancel w2 = Inr w2
     \<and> trace w2 = trace w1 @ [TickerStopEv (fresh w + 3), CompleteEv]"
  by (auto simp: Let_def Subscriber_def log_def)

lemma From_cancel_noop:
  "activate fuel (From args) observer w = Inr (cancel, w1) \<Longrightarrow> invoke fuel cancel w2 = Inr w2"
  by (auto split: sum.splits)

text \<open>
  C3. Stated: every producer's Subscription may be invoked more than once, and the later
  invocations do nothing: no second \<open>Complete\<close>, no second cleanup. In the code the
  Subscription of \<open>Accept\<close> has no such guard: activated with an Observer that has a
  \<open>Complete\<close> callback and cancelled twice, it runs \<open>Complete\<close> and the \<open>completed\<close>
  callback twice.
\<close>

theorem Accept_cancel_twice:
  "(case Accept True world0 of
      ((obs, s), w) \<Rightarrow>
        (case activate fuel s (Subscriber (\<lambda>seen t. True)) w of
           Inl err \<Rightarrow> Inl err
         | Inr (cancel, w1) \<Rightarrow>
             (case invoke fuel cancel w1 of
                Inl err \<Rightarrow> Inl err
              | Inr w2 \<Rightarrow> map_sum id trace (invoke fuel cancel w2))))
   = Inr [CompleteEv, CompletedEv, CompleteEv, CompletedEv]"
  by (simp add: Accept_def Subscriber_def world0_def log_def)

text \<open>The Subscription of \<open>FromListener\<close> closes the listener and completes again, too.\<close>

lemma FromListener_cancel_twice:
  "(case activate fuel (FromListener l) (Subscriber (\<lambda>seen t. True)) world0 of
      Inl err \<Rightarrow> Inl err
    | Inr (cancel, w1) \<Rightarrow>
        (case invoke fuel cancel w1 of
           Inl err \<Rightarrow> Inl err
         | Inr w2 \<Rightarrow> map_sum id trace (invoke fuel cancel w2)))
   = Inr [ListenEv l, CloseEv l, CompleteEv, CloseEv l, CompleteEv]"
  by (simp add: Subscriber_def world0_def log_def)

section \<open>Accept\<close>

text \<open>
  C7. \<open>Accept\<close> starts with no Observer registered, and while none is registered the
  push function returns false and does nothing. Activation registers the Observer; while
  it is registered the push function is the Observer's \<open>Next\<close>, result included. Invoking
  the Subscription clears the Observer reference, then runs the Observer's \<open>Complete\<close>
  (when set) and after it the \<open>completed\<close> callback (when given); the reference is nil
  afterwards, so the push function returns false again.
\<close>

theorem Accept_push_function:
  "Accept completed w = ((obs, s), w0) \<longrightarrow>
     obss w0 obs = None
     \<and> (\<forall>u. obss u obs = None \<longrightarrow> accept fuel obs t u = Inr (False, u))
     \<and> (\<forall>u. activate fuel s observer u
               = Inr (AcceptUnsub obs observer completed, u\<lparr>obss := (obss u)(obs := Some observer)\<rparr>))
     \<and> (\<forall>u. obss u obs = Some observer \<longrightarrow> accept fuel obs t u = observer_Next fuel observer t u)
     \<and> (\<forall>u. \<exists>u'. invoke fuel (AcceptUnsub obs observer completed) u = Inr u'
            \<and> u' = (if completed then log CompletedEv else id)
                      (Complete_if_set observer (u\<lparr>obss := (obss u)(obs := None)\<rparr>))
            \<and> obss u' obs = None)"
  by (auto simp: Accept_def accept_def Let_def Complete_if_set_frame log_def)

theorem Accept_push_function_witness:
  "Accept True world0 = ((0, AcceptStream 0 True), world0\<lparr>fresh := 1\<rparr>)
   \<and> accept 0 0 (VInt 7) (world0\<lparr>fresh := 1\<rparr>) = Inr (False, world0\<lparr>fresh := 1\<rparr>)
   \<and> events (accept 0 0 (VInt 7)
        (world0\<lparr>fresh := 1, obss := (obss world0)(0 := Some (Subscriber (\<lambda>seen t. t = VInt 7)))\<rparr>))
       = Inr [NextEv (VInt 7)]
   \<and> map_sum id trace (invoke 0 (AcceptUnsub 0 (Subscriber (\<lambda>seen t. t = VInt 7)) True)
        (world0\<lparr>fresh := 1, obss := (obss world0)(0 := Some (Subscriber (\<lambda>seen t. t = VInt 7)))\<rparr>))
       = Inr [CompleteEv, CompletedEv]"
  using Accept_push_function [of True world0 0 "AcceptStream 0 True" "world0\<lparr>fresh := 1\<rparr>" 0 "VInt 7"
      "Subscriber (\<lambda>seen t. t = VInt 7)"]
  by (simp add: Accept_def accept_def Subscriber_def world0_def log_def events_def)

section \<open>A nil Next\<close>

text \<open>
  C10. No producer checks \<open>Next\<close> for nil before calling it. Activated with an Observer
  whose \<open>Next\<close> is nil, \<open>From\<close> panics on its first value, \<open>Periodic\<close> on its first tick,
  the push function of \<open>Accept\<close> on the first value pushed after activation, and the
  callback of \<open>FromListener\<close> on the first value the listener emits.
\<close>

theorem nil_Next_panics:
  "(args \<noteq> [] \<longrightarrow> activate fuel (From args) (Observer None e c) w = Inl NilDeref)
   \<and> (\<forall>ticker closeCh done ob w1.
         activate fuel Periodic (Observer None e c) w = Inr (PeriodicUnsub ticker closeCh done ob, w1)
         \<longrightarrow> tick fuel ticker w1 = Inl NilDeref)
   \<and> (\<forall>cancel w1.
         activate fuel (AcceptStream obs completed) (Observer None e c) w = Inr (cancel, w1)
         \<longrightarrow> accept fuel obs t w1 = Inl NilDeref)
   \<and> (\<forall>cancel w1.
         activate fuel (FromListener l) (Observer None e c) w = Inr (cancel, w1)
         \<longrightarrow> emit fuel l t w1 = Inl NilDeref)"
  by (cases args) (auto simp: Let_def tick_def accept_def emit_def log_def)

theorem nil_Next_panics_witness:
  "activate 0 (From [VInt 1]) (Observer None None None) world0 = Inl NilDeref
   \<and> (case activate 0 Periodic (Observer None None None) world0 of
         Inl err \<Rightarrow> Inl err | Inr (cancel, w1) \<Rightarrow> tick 0 3 w1) = Inl NilDeref
   \<and> (case activate 0 (AcceptStream 0 False) (Observer None None None) world0 of
         Inl err \<Rightarrow> Inl err | Inr (cancel, w1) \<Rightarrow> accept 0 0 (VInt 1) w1) = Inl NilDeref
   \<and> (case activate 0 (FromListener 0) (Observer None None None) world0 of
         Inl err \<Rightarrow> Inl err | Inr (cancel, w1) \<Rightarrow> emit 0 0 (VInt 1) w1) = Inl NilDeref"
  using nil_Next_panics [of "[VInt 1]" 0 None None world0 0 False "VInt 1" 0]
  by (simp add: Let_def world0_def)

section \<open>Take\<close>

text \<open>
  \<open>Take\<close>'s \<open>Next\<close> forwards the value first, then counts it and compares the count with
  \<open>n\<close>. For \<open>n\<close> other than 0 and a source that stops when \<open>Next\<close> returns false (\<open>From\<close>),
  no more than \<open>n\<close> values reach the Observer, and the call that brings the count to \<open>n\<close>
  returns false whatever the Observer answered.
\<close>

lemma Complete_if_set_cong: "Complete_if_set (Observer n e c) w = Complete_if_set (Observer n' e' c) w"
  by (cases c; cases "the c"; simp)

lemma count_reaches:
  assumes "j < unat (n::goint)"
  shows "(of_nat j + 1 = n) = (Suc j = unat n)"
proof -
  have "unat n < 2 ^ 64" using unsigned_less[of n] by simp
  then have lt: "Suc j < 2 ^ 64" using assms by simp
  have u: "unat (of_nat (Suc j) :: goint) = Suc j"
    using lt by (simp add: unat_of_nat del: of_nat_Suc)
  show ?thesis
  proof
    assume "of_nat j + 1 = n"
    then have "of_nat (Suc j) = n" by (simp add: add.commute)
    with u show "Suc j = unat n" by simp
  next
    assume "Suc j = unat n"
    then have "(of_nat (Suc j) :: goint) = of_nat (unat n)" by simp
    then show "of_nat j + 1 = n" by (simp add: add.commute)
  qed
qed

lemma Take_Next_Subscriber:
  "observer_Next fuel (Observer (Some (TakeNext r n (Observer (Some (UserNext decide)) e c))) e' c') v w
   = Inr (decide (trace w) v \<and> ints w r + 1 \<noteq> n,
          (log (NextEv v) w)\<lparr>ints := (ints w)(r := ints w r + 1)\<rparr>)"
  by (auto simp: log_def Let_def)

lemma Take_loop:
  assumes "ints w r = of_nat j" and "j < unat n"
  shows "\<exists>k w'. from_loop (observer_Next fuel
              (Observer (Some (TakeNext r n (Observer (Some (UserNext decide)) e c))) e' c')) args w = Inr w'
     \<and> trace w' = trace w @ map NextEv (take k args) \<and> k \<le> length args \<and> j + k \<le> unat n
     \<and> fresh w' = fresh w"
proof -
  define nxt where "nxt = observer_Next fuel
              (Observer (Some (TakeNext r n (Observer (Some (UserNext decide)) e c))) e' c')"
  have nxt: "nxt v u = Inr (decide (trace u) v \<and> ints u r + 1 \<noteq> n,
          (log (NextEv v) u)\<lparr>ints := (ints u)(r := ints u r + 1)\<rparr>)" for v u
    unfolding nxt_def by (rule Take_Next_Subscriber)
  have "\<exists>k w'. from_loop nxt args w = Inr w'
     \<and> trace w' = trace w @ map NextEv (take k args) \<and> k \<le> length args \<and> j + k \<le> unat n
     \<and> fresh w' = fresh w"
    using assms
  proof (induction args arbitrary: w j)
    case Nil
    then show ?case by simp
  next
    case (Cons v args)
    let ?w2 = "(log (NextEv v) w)\<lparr>ints := (ints w)(r := ints w r + 1)\<rparr>"
    show ?case
    proof (cases "decide (trace w) v \<and> Suc j \<noteq> unat n")
      case False
      then have "from_loop nxt (v # args) w = Inr ?w2"
        using Cons.prems count_reaches[of j n] by (auto simp: nxt)
      moreover have "trace ?w2 = trace w @ map NextEv (take 1 (v # args))" by (simp add: log_def)
      moreover have "j + 1 \<le> unat n" using Cons.prems by simp
      moreover have "fresh ?w2 = fresh w" by (simp add: log_def)
      ultimately show ?thesis by (intro exI[of _ 1] exI[of _ ?w2]) simp
    next
      case True
      then have step: "from_loop nxt (v # args) w = from_loop nxt args ?w2"
        using Cons.prems count_reaches[of j n] by (auto simp: nxt)
      have "ints ?w2 r = of_nat (Suc j)" using Cons.prems by (simp add: log_def)
      moreover have "Suc j < unat n" using True Cons.prems by simp
      ultimately obtain k w' where
        IH: "from_loop nxt args ?w2 = Inr w'"
          "trace w' = trace ?w2 @ map NextEv (take k args)" "k \<le> length args" "Suc j + k \<le> unat n"
          "fresh w' = fresh ?w2"
        using Cons.IH[of ?w2 "Suc j"] by blast
      show ?thesis
        using step IH by (intro exI[of _ "Suc k"] exI[of _ w']) (simp add: log_def)
    qed
  qed
  then show ?thesis unfolding nxt_def .
qed

lemma Take_forwards_at_most:
  assumes "n \<noteq> 0"
  shows "\<exists>k. k \<le> unat n \<and> k \<le> length args
     \<and> events (activate fuel (Take n (From args)) (Subscriber decide) w)
         = Inr (trace w @ map NextEv (take k args) @ [CompleteEv])"
proof -
  let ?w0 = "w\<lparr>ints := (ints w)(fresh w := 0), fresh := Suc (fresh w)\<rparr>"
  have "0 < unat n" using assms by (simp add: unat_gt_0)
  then obtain k w' where
    L: "from_loop (observer_Next fuel
              (Observer (Some (TakeNext (fresh w) n (Subscriber decide))) None (Some UserComplete))) args ?w0 = Inr w'"
      "trace w' = trace ?w0 @ map NextEv (take k args)" "k \<le> length args" "0 + k \<le> unat n"
    using Take_loop[of ?w0 "fresh w" 0 n fuel decide None "Some UserComplete" None "Some UserComplete" args]
    by (auto simp: Subscriber_def)
  then show ?thesis
    by (intro exI[of _ k]) (simp add: events_def Subscriber_def log_def)
qed

lemma Take_nth_returns_false:
  "ints w1 r + 1 = n \<Longrightarrow> observer_Next fuel observer v w = Inr (ok, w1) \<Longrightarrow>
   \<exists>w2. observer_Next fuel (Observer (Some (TakeNext r n observer)) e c) v w = Inr (False, w2)"
  by simp

text \<open>
  The count is compared for equality and only after forwarding, so \<open>Take\<close> relies on the
  source to stop: the push function of \<open>Accept\<close> keeps calling \<open>Next\<close> for every value
  pushed, and \<open>Take(2)\<close> over it forwards a third value.
\<close>

lemma Take_over_Accept_forwards_more:
  "(case activate fuel (Take 2 (AcceptStream 0 False)) (Subscriber (\<lambda>seen t. True)) (world0\<lparr>fresh := 1\<rparr>) of
      Inl err \<Rightarrow> Inl err
    | Inr (cancel, w1) \<Rightarrow> map_sum id trace (run fuel [Push 0 (VInt 1), Push 0 (VInt 2), Push 0 (VInt 3)] w1))
   = Inr [NextEv (VInt 1), NextEv (VInt 2), NextEv (VInt 3)]"
  by (simp add: Subscriber_def world0_def log_def accept_def)

text \<open>
  C1. Stated: \<open>Take(n)\<close> forwards at most \<open>n\<close> values for every \<open>n \<ge> 0\<close>, and none for
  \<open>n = 0\<close>. In the code the count is compared after the value was forwarded and counted,
  so with \<open>n = 0\<close> it is never equal to \<open>n\<close>: \<open>Take(0)\<close> over \<open>From(1, 2, 3)\<close> forwards
  all three values.
\<close>

theorem Take_zero_forwards_all:
  "events (activate fuel (Take 0 (From [VInt 1, VInt 2, VInt 3])) (Subscriber (\<lambda>seen t. True)) world0)
   = Inr [NextEv (VInt 1), NextEv (VInt 2), NextEv (VInt 3), CompleteEv]"
  by (simp add: events_def Subscriber_def world0_def log_def)

section \<open>Flatten: the two completions\<close>

text \<open>
  When the outer Stream completes first, the inner Stream's completion completes the
  output, once: here the inner Stream is built by \<open>Accept\<close> (its \<open>obs\<close> at address 0) and
  completes when the Subscription is invoked. The tuple is \<open>outerCompleted\<close> after
  activation and the trace after activation, after a push, after cancelling and after
  cancelling again.
\<close>

lemma Flatten_outer_completes_first:
  "(case activate (Suc fuel) (Flatten (From [VStream (AcceptStream 0 False)]))
           (Subscriber (\<lambda>seen t. True)) (world0\<lparr>fresh := 1\<rparr>) of
      Inl err \<Rightarrow> Inl err
    | Inr (cancel, w1) \<Rightarrow>
        (case accept (Suc fuel) 0 (VInt 1) w1 of
           Inl err \<Rightarrow> Inl err
         | Inr (ok, w2) \<Rightarrow>
             (case invoke (Suc fuel) cancel w2 of
                Inl err \<Rightarrow> Inl err
              | Inr w3 \<Rightarrow>
                  map_sum id (\<lambda>w4. (flags w1 2, trace w1, trace w2, trace w3, trace w4))
                    (invoke (Suc fuel) cancel w3))))
   = Inr (True, [], [NextEv (VInt 1)], [NextEv (VInt 1), CompleteEv], [NextEv (VInt 1), CompleteEv])"
  by (simp add: Subscriber_def world0_def log_def accept_def)

text \<open>
  C2. Stated: the output of \<open>Flatten\<close> completes exactly once when both the outer Stream
  and the last inner Stream have completed, in either order. In the code the outer
  \<open>Complete\<close> only sets \<open>outerCompleted\<close>; it does not look at the inner Stream. With
  \<open>From(From(1))\<close> the inner Stream completes during the outer \<open>Next\<close>, before the outer
  Stream does, and the Observer's \<open>Complete\<close> is never called: not by the activation
  (after which \<open>outerCompleted\<close>, at address 1, is set) and not by cancelling afterwards.
\<close>

theorem Flatten_inner_completes_first:
  "(case activate (Suc fuel) (Flatten (From [VStream (From [VInt 1])]))
           (Subscriber (\<lambda>seen t. True)) world0 of
      Inl err \<Rightarrow> Inl err
    | Inr (cancel, w1) \<Rightarrow>
        map_sum id (\<lambda>w2. (flags w1 1, trace w1, trace w2)) (invoke (Suc fuel) cancel w1))
   = Inr (True, [NextEv (VInt 1)], [NextEv (VInt 1)])"
  by (simp add: Subscriber_def world0_def log_def)

section \<open>From\<close>

text \<open>
  The loop of \<open>From\<close> over an Observer of the caller: it delivers the first \<open>k\<close> values,
  every one but the last of them was accepted, and it stops short of the end only after a
  value was refused.
\<close>

lemma From_loop_Subscriber:
  "\<exists>k. k \<le> length S
     \<and> from_loop (observer_Next fuel (Observer (Some (UserNext decide)) e c)) S w
         = Inr (w\<lparr>trace := trace w @ map NextEv (take k S)\<rparr>)
     \<and> (\<forall>j. Suc j < k \<longrightarrow> decide (trace w @ map NextEv (take j S)) (S ! j))
     \<and> (k < length S \<longrightarrow> 0 < k \<and> \<not> decide (trace w @ map NextEv (take (k - 1) S)) (S ! (k - 1)))"
proof -
  define nxt where "nxt = observer_Next fuel (Observer (Some (UserNext decide)) e c)"
  have nxt: "nxt v u = Inr (decide (trace u) v, log (NextEv v) u)" for v u
    unfolding nxt_def by simp
  have "\<exists>k. k \<le> length S
     \<and> from_loop nxt S w = Inr (w\<lparr>trace := trace w @ map NextEv (take k S)\<rparr>)
     \<and> (\<forall>j. Suc j < k \<longrightarrow> decide (trace w @ map NextEv (take j S)) (S ! j))
     \<and> (k < length S \<longrightarrow> 0 < k \<and> \<not> decide (trace w @ map NextEv (take (k - 1) S)) (S ! (k - 1)))"
  proof (induction S arbitrary: w)
    case Nil
    then show ?case by simp
  next
    case (Cons v S)
    show ?case
    proof (cases "decide (trace w) v")
      case False
      then have "from_loop nxt (v # S) w = Inr (log (NextEv v) w)"
        by (simp add: nxt)
      then show ?thesis
        using False by (intro exI[of _ 1]) (simp add: log_def)
    next
      case True
      obtain k where IH: "k \<le> length S"
        "from_loop nxt S (log (NextEv v) w)
           = Inr ((log (NextEv v) w)\<lparr>trace := trace (log (NextEv v) w) @ map NextEv (take k S)\<rparr>)"
        "\<forall>j. Suc j < k \<longrightarrow> decide (trace (log (NextEv v) w) @ map NextEv (take j S)) (S ! j)"
        "k < length S \<longrightarrow> 0 < k \<and> \<not> decide (trace (log (NextEv v) w) @ map NextEv (take (k - 1) S)) (S ! (k - 1))"
        using Cons.IH[of "log (NextEv v) w"] by blast
      have a: "\<forall>j. Suc j < Suc k \<longrightarrow> decide (trace w @ map NextEv (take j (v # S))) ((v # S) ! j)"
      proof (intro allI impI)
        fix j assume "Suc j < Suc k"
        then show "decide (trace w @ map NextEv (take j (v # S))) ((v # S) ! j)"
          using True IH(3) by (cases j) (auto simp: log_def)
      qed
      have b: "Suc k < length (v # S) \<longrightarrow>
           0 < Suc k \<and> \<not> decide (trace w @ map NextEv (take (Suc k - 1) (v # S))) ((v # S) ! (Suc k - 1))"
        using IH(4) by (cases k) (auto simp: log_def)
      have step: "from_loop nxt (v # S) w = from_loop nxt S (log (NextEv v) w)"
        using True by (simp add: nxt)
      show ?thesis
        using IH(1,2) a b unfolding step by (intro exI[of _ "Suc k"]) (simp add: log_def)
    qed
  qed
  then show ?thesis unfolding nxt_def .
qed

lemma From_loop_accepting:
  assumes "\<forall>seen t. decide seen t"
  shows "from_loop (observer_Next fuel (Observer (Some (UserNext decide)) e c)) S w
         = Inr (w\<lparr>trace := trace w @ map NextEv S\<rparr>)"
proof -
  obtain k where k: "k \<le> length S"
     "from_loop (observer_Next fuel (Observer (Some (UserNext decide)) e c)) S w
         = Inr (w\<lparr>trace := trace w @ map NextEv (take k S)\<rparr>)"
     "k < length S \<longrightarrow> 0 < k \<and> \<not> decide (trace w @ map NextEv (take (k - 1) S)) (S ! (k - 1))"
    using From_loop_Subscriber[of S fuel decide e c w] by blast
  from k(3) assms have "\<not> k < length S" by blast
  with k(1) have "take k S = S" by simp
  with k(2) show ?thesis by simp
qed

text \<open>The loop of \<open>From\<close> over the Observer that \<open>Collect\<close> builds on \<open>ToSlice\<close>.\<close>

lemma From_loop_Collect:
  "a \<noteq> x \<Longrightarrow>
   from_loop (observer_Next fuel (Observer (Some (CollectNext x (ToSliceFn a))) e c)) S w
     = Inr (if S = [] then w
            else w\<lparr>slices := (slices w)(a := slices w a @ S, x := slices w a @ S)\<rparr>)"
proof -
  assume ax: "a \<noteq> x"
  define nxt where "nxt = observer_Next fuel (Observer (Some (CollectNext x (ToSliceFn a))) e c)"
  have nxt: "nxt v u = Inr (True, u\<lparr>slices := (slices u)(a := slices u a @ [v], x := slices u a @ [v])\<rparr>)" for v u
    unfolding nxt_def using ax by (simp add: Let_def)
  have "from_loop nxt S w
     = Inr (if S = [] then w
            else w\<lparr>slices := (slices w)(a := slices w a @ S, x := slices w a @ S)\<rparr>)"
    using ax by (induction S arbitrary: w) (auto simp: nxt fun_upd_twist)
  then show ?thesis unfolding nxt_def .
qed

text \<open>
  C6. \<open>From(S)\<close> delivers the values of \<open>S\<close> in order, each once, and no value after
  the first one for which \<open>Next\<close> returned false; then it calls \<open>Complete\<close> once, if the
  Observer has one (\<open>Subscriber\<close>), and nothing if it has none (\<open>Observe\<close>). When \<open>Next\<close>
  accepts everything the Observer sees all of \<open>S\<close>, and \<open>Collect\<close> with \<open>ToSlice\<close>
  returns \<open>S\<close>.
\<close>

theorem From_delivers_in_order:
  "(\<exists>k. k \<le> length S
      \<and> activate fuel (From S) (Subscriber decide) w
          = Inr (NoopSub, w\<lparr>trace := trace w @ map NextEv (take k S) @ [CompleteEv]\<rparr>)
      \<and> activate fuel (From S) (Observe decide) w
          = Inr (NoopSub, w\<lparr>trace := trace w @ map NextEv (take k S)\<rparr>)
      \<and> (\<forall>j. Suc j < k \<longrightarrow> decide (trace w @ map NextEv (take j S)) (S ! j))
      \<and> (k < length S \<longrightarrow> 0 < k \<and> \<not> decide (trace w @ map NextEv (take (k - 1) S)) (S ! (k - 1))))
   \<and> ((\<forall>seen t. decide seen t) \<longrightarrow>
        activate fuel (From S) (Subscriber decide) w
          = Inr (NoopSub, w\<lparr>trace := trace w @ map NextEv S @ [CompleteEv]\<rparr>))
   \<and> (\<forall>fn w1 xo w2. ToSlice w = (fn, w1) \<and> Collect fn w1 = (xo, w2) \<longrightarrow>
        (\<exists>w3. Collect_run fuel xo (From S) w2 = Inr (S, w3)))"
proof (intro conjI)
  obtain k where k: "k \<le> length S"
     "from_loop (observer_Next fuel (Subscriber decide)) S w
         = Inr (w\<lparr>trace := trace w @ map NextEv (take k S)\<rparr>)"
     "\<forall>j. Suc j < k \<longrightarrow> decide (trace w @ map NextEv (take j S)) (S ! j)"
     "k < length S \<longrightarrow> 0 < k \<and> \<not> decide (trace w @ map NextEv (take (k - 1) S)) (S ! (k - 1))"
    using From_loop_Subscriber[of S fuel decide None "Some UserComplete" w]
    unfolding Subscriber_def by blast
  have same: "from_loop (observer_Next fuel (Observe decide)) S w
      = from_loop (observer_Next fuel (Subscriber decide)) S w"
    by (rule from_loop_cong) (simp_all add: Observe_def Subscriber_def)
  have act: "activate fuel (From S) (Subscriber decide) w
          = Inr (NoopSub, w\<lparr>trace := trace w @ map NextEv (take k S) @ [CompleteEv]\<rparr>)"
    using k(2) by (simp add: Subscriber_def log_def)
  have act': "activate fuel (From S) (Observe decide) w
          = Inr (NoopSub, w\<lparr>trace := trace w @ map NextEv (take k S)\<rparr>)"
    using k(2) same by (simp add: Observe_def)
  show "\<exists>k. k \<le> length S
      \<and> activate fuel (From S) (Subscriber decide) w
          = Inr (NoopSub, w\<lparr>trace := trace w @ map NextEv (take k S) @ [CompleteEv]\<rparr>)
      \<and> activate fuel (From S) (Observe decide) w
          = Inr (NoopSub, w\<lparr>trace := trace w @ map NextEv (take k S)\<rparr>)
      \<and> (\<forall>j. Suc j < k \<longrightarrow> decide (trace w @ map NextEv (take j S)) (S ! j))
      \<and> (k < length S \<longrightarrow> 0 < k \<and> \<not> decide (trace w @ map NextEv (take (k - 1) S)) (S ! (k - 1)))"
    using k(1,3,4) act act' by blast
  show "(\<forall>seen t. decide seen t) \<longrightarrow>
        activate fuel (From S) (Subscriber decide) w
          = Inr (NoopSub, w\<lparr>trace := trace w @ map NextEv S @ [CompleteEv]\<rparr>)"
  proof
    assume all: "\<forall>seen t. decide seen t"
    then have "\<not> k < length S" using k(4) by blast
    then have "take k S = S" using k(1) by simp
    then show "activate fuel (From S) (Subscriber decide) w
          = Inr (NoopSub, w\<lparr>trace := trace w @ map NextEv S @ [CompleteEv]\<rparr>)"
      using act by simp
  qed
  show "\<forall>fn w1 xo w2. ToSlice w = (fn, w1) \<and> Collect fn w1 = (xo, w2) \<longrightarrow>
        (\<exists>w3. Collect_run fuel xo (From S) w2 = Inr (S, w3))"
    by (auto simp: ToSlice_def Collect_def Collect_run_def Let_def From_loop_Collect)
qed

theorem From_delivers_in_order_witness:
  "activate 0 (From [VInt 1, VInt 2, VInt 3]) (Subscriber (\<lambda>seen t. True)) world0
     = Inr (NoopSub, world0\<lparr>trace := [NextEv (VInt 1), NextEv (VInt 2), NextEv (VInt 3), CompleteEv]\<rparr>)
   \<and> activate 0 (From [VInt 1, VInt 2, VInt 3]) (Subscriber (\<lambda>seen t. t \<noteq> VInt 2)) world0
     = Inr (NoopSub, world0\<lparr>trace := [NextEv (VInt 1), NextEv (VInt 2), CompleteEv]\<rparr>)
   \<and> (\<exists>w3. Collect_run 0 (1, Observer (Some (CollectNext 1 (ToSliceFn 0))) None None)
              (From [VInt 1, VInt 2, VInt 3]) (snd (Collect (ToSliceFn 0) (snd (ToSlice world0))))
            = Inr ([VInt 1, VInt 2, VInt 3], w3))"
  using From_delivers_in_order[where S = "[VInt 1, VInt 2, VInt 3]" and fuel = 0
      and decide = "\<lambda>seen t. True" and w = world0, THEN conjunct2]
  by (simp add: world0_def ToSlice_def Collect_def Subscriber_def log_def)

section \<open>Reduce\<close>

lemma Reduce_loop:
  assumes acc: "\<forall>seen t. decide seen t"
  shows "from_loop (observer_Next fuel
            (Observer (Some (ReduceNext r f (Observer (Some (UserNext decide)) e c))) e' c'))
           (map VInt vs) w
     = Inr (w\<lparr>accs := (accs w)(r := foldl f (accs w r) vs),
              trace := trace w @ map (\<lambda>j. NextEv (VInt (foldl f (accs w r) (take (Suc j) vs)))) [0..<length vs]\<rparr>)"
proof -
  define nxt where "nxt = observer_Next fuel
            (Observer (Some (ReduceNext r f (Observer (Some (UserNext decide)) e c))) e' c')"
  have nxt: "nxt (VInt x) u = Inr (True, u\<lparr>accs := (accs u)(r := f (accs u r) x),
                 trace := trace u @ [NextEv (VInt (f (accs u r) x))]\<rparr>)" for x u
    unfolding nxt_def using acc by (simp add: Let_def log_def)
  have "from_loop nxt (map VInt vs) w
     = Inr (w\<lparr>accs := (accs w)(r := foldl f (accs w r) vs),
              trace := trace w @ map (\<lambda>j. NextEv (VInt (foldl f (accs w r) (take (Suc j) vs)))) [0..<length vs]\<rparr>)"
  proof (induction vs arbitrary: w)
    case Nil
    then show ?case by simp
  next
    case (Cons v vs)
    let ?w1 = "w\<lparr>accs := (accs w)(r := f (accs w r) v),
                 trace := trace w @ [NextEv (VInt (f (accs w r) v))]\<rparr>"
    have step: "from_loop nxt (map VInt (v # vs)) w = from_loop nxt (map VInt vs) ?w1"
      using nxt[of v w] by simp
    show ?case
      by (simp only: step Cons.IH[of ?w1])
         (auto simp add: map_upt_Suc fun_eq_iff simp del: upt_Suc intro!: world.equality)
  qed
  then show ?thesis unfolding nxt_def .
qed

text \<open>
  C5. Over the upstream values \<open>v1 .. vk\<close>, all of them accepted downstream, \<open>Reduce\<close>
  delivers \<open>k + 1\<close> values: the initial value, then the accumulator after each upstream
  value, in order (the \<open>j\<close>-th is the fold of \<open>f\<close> over the first \<open>j\<close> values). If the
  Observer refuses the initial value, \<open>Reduce\<close> returns the Subscription that does nothing
  and the source is not activated: the store holds the accumulator and the one event,
  whatever the source is.
\<close>

theorem Reduce_running_accumulation:
  "((\<forall>seen t. decide seen t) \<longrightarrow>
      activate fuel (Reduce initialValue f (From (map VInt vs))) (Subscriber decide) w
        = Inr (NoopSub,
               w\<lparr>accs := (accs w)(fresh w := foldl f initialValue vs),
                 fresh := Suc (fresh w),
                 trace := trace w
                   @ map (\<lambda>j. NextEv (VInt (foldl f initialValue (take j vs)))) [0..<Suc (length vs)]
                   @ [CompleteEv]\<rparr>))
   \<and> (\<not> decide (trace w) (VInt initialValue) \<longrightarrow>
        activate fuel (Reduce initialValue f source) (Observer (Some (UserNext decide)) e c) w
          = Inr (NoopSub,
                 w\<lparr>accs := (accs w)(fresh w := initialValue),
                   fresh := Suc (fresh w),
                   trace := trace w @ [NextEv (VInt initialValue)]\<rparr>))"
proof (intro conjI impI)
  assume acc: "\<forall>seen t. decide seen t"
  let ?w1 = "log (NextEv (VInt initialValue))
      (w\<lparr>accs := (accs w)(fresh w := initialValue), fresh := Suc (fresh w)\<rparr>)"
  have loop: "from_loop (observer_Next fuel
            (Observer (Some (ReduceNext (fresh w) f (Subscriber decide))) None (Some UserComplete)))
           (map VInt vs) ?w1
     = Inr (?w1\<lparr>accs := (accs ?w1)(fresh w := foldl f (accs ?w1 (fresh w)) vs),
              trace := trace ?w1 @ map (\<lambda>j. NextEv (VInt (foldl f (accs ?w1 (fresh w)) (take (Suc j) vs)))) [0..<length vs]\<rparr>)"
    unfolding Subscriber_def using Reduce_loop[OF acc] by blast
  show "activate fuel (Reduce initialValue f (From (map VInt vs))) (Subscriber decide) w
        = Inr (NoopSub,
               w\<lparr>accs := (accs w)(fresh w := foldl f initialValue vs),
                 fresh := Suc (fresh w),
                 trace := trace w
                   @ map (\<lambda>j. NextEv (VInt (foldl f initialValue (take j vs)))) [0..<Suc (length vs)]
                   @ [CompleteEv]\<rparr>)"
    using acc loop
    by (simp add: Subscriber_def Let_def log_def map_upt_Suc del: upt_Suc)
next
  assume "\<not> decide (trace w) (VInt initialValue)"
  then show "activate fuel (Reduce initialValue f source) (Observer (Some (UserNext decide)) e c) w
          = Inr (NoopSub,
                 w\<lparr>accs := (accs w)(fresh w := initialValue),
                   fresh := Suc (fresh w),
                   trace := trace w @ [NextEv (VInt initialValue)]\<rparr>)"
    by (simp add: Let_def log_def)
qed

theorem Reduce_running_accumulation_witness:
  "events (activate 0 (Reduce 10 (\<lambda>acc i. acc + i) (From [VInt 1, VInt 2, VInt 3]))
             (Subscriber (\<lambda>seen t. True)) world0)
     = Inr [NextEv (VInt 10), NextEv (VInt 11), NextEv (VInt 13), NextEv (VInt 16), CompleteEv]
   \<and> events (activate 0 (Reduce 10 (\<lambda>acc i. acc + i) (From [VInt 1, VInt 2, VInt 3]))
             (Observe (\<lambda>seen t. False)) world0)
     = Inr [NextEv (VInt 10)]"
  using Reduce_running_accumulation[where decide = "\<lambda>seen t. True" and fuel = 0 and initialValue = 10
      and f = "\<lambda>acc i. acc + i" and vs = "[1, 2, 3]" and w = world0, THEN conjunct1]
    Reduce_running_accumulation[where decide = "\<lambda>seen t. False" and fuel = 0 and initialValue = 10
      and f = "\<lambda>acc i. acc + i" and source = "From [VInt 1, VInt 2, VInt 3]" and w = world0
      and e = None and c = None, THEN conjunct2]
  by (simp add: events_def Observe_def world0_def upt_rec)

section \<open>Merge\<close>

text \<open>
  \<open>Merge\<close> hands every source the Observer whose \<open>Complete\<close> is the closure
  \<open>MergeComplete numCompleted (length streams) observer\<close>, with \<open>numCompleted\<close> set to 0.
\<close>

lemma goint_of_nat_eq:
  assumes "a < 2 ^ 64" and "b < 2 ^ 64"
  shows "((of_nat a :: goint) = of_nat b) = (a = b)"
proof
  assume "(of_nat a :: goint) = of_nat b"
  then have "unat (of_nat a :: goint) = unat (of_nat b :: goint)" by simp
  then show "a = b" using assms by (simp add: unat_of_nat)
qed simp

lemma Merge_Complete_step:
  "Complete_if_set (Observer nx er (Some (MergeComplete numCompleted k (Subscriber decide)))) w
   = (if ints w numCompleted + 1 = of_nat k
      then w\<lparr>ints := (ints w)(numCompleted := ints w numCompleted + 1), trace := trace w @ [CompleteEv]\<rparr>
      else w\<lparr>ints := (ints w)(numCompleted := ints w numCompleted + 1)\<rparr>)"
  by (simp add: Subscriber_def Let_def log_def)

text \<open>
  With \<open>k\<close> sources built by \<open>From\<close>, which complete during activation, the Observer sees
  every value of every source, source after source, and then \<open>Complete\<close> once.
\<close>

lemma Merge_loop_From:
  assumes acc: "\<forall>seen t. decide seen t" and k: "k < 2 ^ 64"
  shows "ints w r = of_nat j \<Longrightarrow> j + length argss = k \<Longrightarrow>
    merge_loop (\<lambda>stream. activate fuel stream
        (Observer (Some (UserNext decide)) er (Some (MergeComplete r k (Subscriber decide)))))
      (map From argss) w
    = Inr (replicate (length argss) NoopSub,
           w\<lparr>ints := (ints w)(r := of_nat k),
             trace := trace w @ map NextEv (concat argss) @ (if argss = [] then [] else [CompleteEv])\<rparr>)"
proof (induction argss arbitrary: w j)
  case Nil
  have "(ints w)(r := of_nat j) = ints w" using Nil(1) by (rule fun_upd_idem)
  then show ?case using Nil by simp
next
  case (Cons args argss)
  let ?obs = "Observer (Some (UserNext decide)) er (Some (MergeComplete r k (Subscriber decide)))"
  let ?w1 = "w\<lparr>trace := trace w @ map NextEv args\<rparr>"
  let ?w2 = "Complete_if_set ?obs ?w1"
  have eq: "((of_nat j + 1 :: goint) = of_nat k) = (argss = [])"
    using goint_of_nat_eq[of "Suc j" k] Cons.prems k by (auto simp: add.commute)
  have act: "activate fuel (From args) ?obs w = Inr (NoopSub, ?w2)"
    by (simp add: From_loop_accepting[OF acc])
  have w2: "?w2 = w\<lparr>ints := (ints w)(r := of_nat (Suc j)),
                    trace := trace w @ map NextEv args @ (if argss = [] then [CompleteEv] else [])\<rparr>"
    by (subst Merge_Complete_step) (use Cons.prems eq in \<open>auto simp: add.commute\<close>)
  have "ints ?w2 r = of_nat (Suc j)" unfolding w2 by simp
  moreover have "Suc j + length argss = k" using Cons.prems by simp
  ultimately have IH: "merge_loop (\<lambda>stream. activate fuel stream ?obs) (map From argss) ?w2
    = Inr (replicate (length argss) NoopSub,
           ?w2\<lparr>ints := (ints ?w2)(r := of_nat k),
             trace := trace ?w2 @ map NextEv (concat argss) @ (if argss = [] then [] else [CompleteEv])\<rparr>)"
    by (rule Cons.IH)
  have "merge_loop (\<lambda>stream. activate fuel stream ?obs) (map From (args # argss)) w
     = (case merge_loop (\<lambda>stream. activate fuel stream ?obs) (map From argss) ?w2 of
             Inl e \<Rightarrow> Inl e
           | Inr (us, w3) \<Rightarrow> Inr (NoopSub # us, w3))"
    using act by simp
  also have "\<dots> = Inr (replicate (length (args # argss)) NoopSub,
           w\<lparr>ints := (ints w)(r := of_nat k),
             trace := trace w @ map NextEv (concat (args # argss)) @ [CompleteEv]\<rparr>)"
    unfolding IH unfolding w2 by (auto simp: fun_eq_iff intro!: world.equality)
  finally show ?case by (auto simp: fun_eq_iff intro!: world.equality)
qed

lemma Merge_of_From_completes_once:
  assumes "argss \<noteq> []" and "length argss < 2 ^ 63" and "\<forall>seen t. decide seen t"
  shows "events (activate fuel (Merge (map From argss)) (Subscriber decide) w)
         = Inr (trace w @ map NextEv (concat argss) @ [CompleteEv])"
proof -
  let ?w0 = "w\<lparr>ints := (ints w)(fresh w := 0), fresh := Suc (fresh w)\<rparr>"
  have "length argss < 2 ^ 64" using assms(2) by simp
  then have "merge_loop (\<lambda>stream. activate fuel stream
        (Observer (Some (UserNext decide)) None (Some (MergeComplete (fresh w) (length argss) (Subscriber decide)))))
      (map From argss) ?w0
    = Inr (replicate (length argss) NoopSub,
           ?w0\<lparr>ints := (ints ?w0)(fresh w := of_nat (length argss)),
             trace := trace ?w0 @ map NextEv (concat argss) @ (if argss = [] then [] else [CompleteEv])\<rparr>)"
    using Merge_loop_From[OF assms(3), of "length argss" ?w0 "fresh w" 0 argss fuel None] by simp
  then show ?thesis using assms(1)
    by (simp add: events_def Subscriber_def Let_def)
qed

text \<open>
  The closure that \<open>Merge\<close> gives its sources as \<open>Complete\<close> counts its calls: after
  \<open>m\<close> calls the Observer has seen \<open>Complete\<close> once if \<open>m\<close> has reached the number of
  sources and not at all before. The count is of calls, whichever source makes them. In
  the source the increment and the comparison are not synchronised, and a source such as
  \<open>Periodic\<close> calls \<open>Complete\<close> from its own goroutine; here the calls run one after
  the other.
\<close>

lemma Merge_Complete_counts_calls:
  assumes ne: "streams \<noteq> []" and len: "length streams < 2 ^ 63" and m: "m < 2 ^ 64"
    and zero: "ints w numCompleted = 0"
  shows "((Complete_if_set
         (Observer nx er (Some (MergeComplete numCompleted (length streams) (Subscriber decide))))) ^^ m) w
       = w\<lparr>ints := (ints w)(numCompleted := of_nat m),
            trace := trace w @ (if length streams \<le> m then [CompleteEv] else [])\<rparr>"
proof -
  define k where "k = length streams"
  define comp where "comp = Complete_if_set
       (Observer nx er (Some (MergeComplete numCompleted k (Subscriber decide))))"
  have k: "0 < k" "k < 2 ^ 64" using ne len by (simp_all add: k_def)
  have comp: "comp u = (if ints u numCompleted + 1 = of_nat k
      then u\<lparr>ints := (ints u)(numCompleted := ints u numCompleted + 1), trace := trace u @ [CompleteEv]\<rparr>
      else u\<lparr>ints := (ints u)(numCompleted := ints u numCompleted + 1)\<rparr>)" for u
    unfolding comp_def by (rule Merge_Complete_step)
  have "m < 2 ^ 64 \<Longrightarrow> (comp ^^ m) w
     = w\<lparr>ints := (ints w)(numCompleted := of_nat m),
          trace := trace w @ (if k \<le> m then [CompleteEv] else [])\<rparr>"
  proof (induction m)
    case 0
    have "(ints w)(numCompleted := 0) = ints w" using zero by (rule fun_upd_idem)
    then show ?case using k by simp
  next
    case (Suc m)
    from Suc.prems have "m < 2 ^ 64" by simp
    then have IH: "(comp ^^ m) w
     = w\<lparr>ints := (ints w)(numCompleted := of_nat m),
          trace := trace w @ (if k \<le> m then [CompleteEv] else [])\<rparr>" by (rule Suc.IH)
    have eq: "((1 + of_nat m :: goint) = of_nat k) = (Suc m = k)"
      using goint_of_nat_eq[of "Suc m" k] Suc.prems k by simp
    have "(comp ^^ Suc m) w = comp ((comp ^^ m) w)" by simp
    also have "\<dots> = comp (w\<lparr>ints := (ints w)(numCompleted := of_nat m),
          trace := trace w @ (if k \<le> m then [CompleteEv] else [])\<rparr>)"
      by (simp only: IH)
    also have "\<dots> = w\<lparr>ints := (ints w)(numCompleted := of_nat (Suc m)),
          trace := trace w @ (if k \<le> Suc m then [CompleteEv] else [])\<rparr>"
      by (subst comp) (auto simp: eq add.commute fun_eq_iff intro!: world.equality)
    finally show ?case .
  qed
  then show ?thesis using m unfolding comp_def k_def by simp
qed

text \<open>
  The Subscription of \<open>Merge\<close> invokes every source's Subscription each time it is
  invoked, without a guard of its own. Over a single source built by \<open>Accept\<close> and
  cancelled twice, the counter goes to 1 and on to 2: the Observer sees \<open>Complete\<close> once.
  The pairs are the counter (at address 1) and the trace after activation, after
  cancelling and after cancelling again.
\<close>

lemma Merge_of_Accept_cancel_twice:
  "(case Accept False world0 of
      ((obs, s), w) \<Rightarrow>
        (case activate fuel (Merge [s]) (Subscriber (\<lambda>seen t. True)) w of
           Inl err \<Rightarrow> Inl err
         | Inr (cancel, w1) \<Rightarrow>
             (case invoke fuel cancel w1 of
                Inl err \<Rightarrow> Inl err
              | Inr w2 \<Rightarrow>
                  map_sum id
                    (\<lambda>w3. ((ints w1 1, trace w1), (ints w2 1, trace w2), (ints w3 1, trace w3)))
                    (invoke fuel cancel w2))))
   = Inr ((0, []), (1, [CompleteEv]), (2, [CompleteEv]))"
  by (simp add: Accept_def Subscriber_def world0_def log_def)

text \<open>
  C4. Stated: over \<open>k \<ge> 1\<close> sources, the downstream \<open>Complete\<close> fires exactly once, and
  only when the counter reaches \<open>k\<close>, that is after every one of the \<open>k\<close> sources has
  delivered its own completion. In the code the counter reaching \<open>k\<close> does not mean that:
  it counts the calls, and the Subscription of \<open>Accept\<close> completes again each time it is
  invoked. With \<open>Merge(StartWith(10)(From(1)), s)\<close>, \<open>s\<close> built by \<open>Accept\<close>, and an
  Observer whose \<open>Next\<close> answers false, the first source is refused its first value and
  returns without ever calling \<open>Complete\<close>; cancelling the merged Subscription twice
  makes the second source complete twice, the counter (at address 1) reaches 2, and the
  Observer sees \<open>Complete\<close> although one of the two sources never completed. The pairs are
  the counter and the trace after activation, after cancelling and after cancelling
  again.
\<close>

theorem Merge_completes_without_all_sources:
  "(case Accept False world0 of
      ((obs, s), w) \<Rightarrow>
        (case activate fuel (Merge [StartWith (VInt 10) (From [VInt 1]), s])
                (Subscriber (\<lambda>seen t. False)) w of
           Inl err \<Rightarrow> Inl err
         | Inr (cancel, w1) \<Rightarrow>
             (case invoke fuel cancel w1 of
                Inl err \<Rightarrow> Inl err
              | Inr w2 \<Rightarrow>
                  map_sum id
                    (\<lambda>w3. ((ints w1 1, trace w1), (ints w2 1, trace w2), (ints w3 1, trace w3)))
                    (invoke fuel cancel w2))))
   = Inr ((0, [NextEv (VInt 10)]),
          (1, [NextEv (VInt 10)]),
          (2, [NextEv (VInt 10), CompleteEv]))"
  by (simp add: Accept_def Subscriber_def world0_def log_def)

section \<open>Nil Complete and Error callbacks\<close>

lemma invoke_no_NilDeref:
  "invoke fuel s w \<noteq> Inl NilDeref" "invoke_all fuel ss w \<noteq> Inl NilDeref"
  by (induction fuel s w and fuel ss w rule: invoke_invoke_all.induct)
     (auto simp: Let_def split: sum.splits option.splits nat.splits)

lemma stored_ok_Complete_if_set:
  "stored_ok (Complete_if_set observer w) = stored_ok w"
  by (simp add: stored_ok_def Complete_if_set_frame)

lemma stored_ok_update [simp]:
  "stored_ok (w\<lparr>ints := i\<rparr>) = stored_ok w"
  "stored_ok (w\<lparr>flags := fl\<rparr>) = stored_ok w"
  "stored_ok (w\<lparr>accs := ac\<rparr>) = stored_ok w"
  "stored_ok (w\<lparr>subs := su\<rparr>) = stored_ok w"
  "stored_ok (w\<lparr>slices := sl\<rparr>) = stored_ok w"
  "stored_ok (w\<lparr>fresh := fr\<rparr>) = stored_ok w"
  "stored_ok (w\<lparr>trace := tr\<rparr>) = stored_ok w"
  "stored_ok (log ev w) = stored_ok w"
  by (simp_all add: stored_ok_def log_def)

lemma stored_ok_unregister:
  "stored_ok w \<Longrightarrow> stored_ok (w\<lparr>obss := (obss w)(a := None)\<rparr>)"
  "stored_ok w \<Longrightarrow> stored_ok (w\<lparr>listeners := (listeners w)(l := None)\<rparr>)"
  "stored_ok w \<Longrightarrow> stored_ok (w\<lparr>procs := (procs w)(t := None)\<rparr>)"
  by (auto simp: stored_ok_def)

lemma stored_ok_register:
  "stored_ok w \<Longrightarrow> Next_set ob \<Longrightarrow> stored_ok (w\<lparr>obss := (obss w)(a := Some ob)\<rparr>)"
  "stored_ok w \<Longrightarrow> Next_set ob \<Longrightarrow> stored_ok (w\<lparr>listeners := (listeners w)(l := Some ob)\<rparr>)"
  "stored_ok w \<Longrightarrow> Next_set ob \<Longrightarrow>
     stored_ok (w\<lparr>procs := (procs w)(t := Some (PeriodicLoop i d u ob))\<rparr>)"
  by (auto simp: stored_ok_def)

lemma invoke_stored_ok:
  "invoke fuel s w = Inr w' \<Longrightarrow> stored_ok w \<Longrightarrow> stored_ok w'"
  "invoke_all fuel ss w = Inr w' \<Longrightarrow> stored_ok w \<Longrightarrow> stored_ok w'"
proof (induction fuel s w and fuel ss w arbitrary: w' and w' rule: invoke_invoke_all.induct)
  case (6 fuel unsubscribe rs w)
  then show ?case
    by (auto split: sum.splits option.splits nat.splits)
qed (auto simp: Let_def stored_ok_Complete_if_set stored_ok_unregister split: sum.splits if_splits)

lemma no_panic_simps [simp]:
  "no_panic (Inl err) = (err \<noteq> NilDeref)"
  "no_panic (Inr (x, w)) = stored_ok w"
  by (simp_all add: no_panic_def)

lemma no_panic_cases:
  assumes "no_panic r"
  obtains err where "r = Inl err" "err \<noteq> NilDeref" | x w where "r = Inr (x, w)" "stored_ok w"
  using assms by (cases r) (auto simp: no_panic_def)

lemma from_loop_no_panic:
  assumes "\<And>v u. v \<in> set args \<Longrightarrow> stored_ok u \<Longrightarrow> no_panic (nxt v u)"
    and "stored_ok w"
  shows "no_panic (map_sum (\<lambda>err. err) (Pair ()) (from_loop nxt args w))"
  using assms
proof (induction args arbitrary: w)
  case Nil
  then show ?case by simp
next
  case (Cons v args)
  have "no_panic (nxt v w)" using Cons.prems by simp
  then show ?case
  proof (cases rule: no_panic_cases)
    case (1 err)
    then show ?thesis by simp
  next
    case (2 ok w1)
    have "no_panic (map_sum (\<lambda>err. err) (Pair ()) (from_loop nxt args w1))"
      using Cons.IH[of w1] Cons.prems(1) 2(2) by simp
    then show ?thesis using 2 by simp
  qed
qed

lemma merge_loop_no_panic:
  assumes "\<And>s u. s \<in> set streams \<Longrightarrow> stored_ok u \<Longrightarrow> no_panic (act s u)"
    and "stored_ok w"
  shows "no_panic (merge_loop act streams w)"
  using assms
proof (induction streams arbitrary: w)
  case Nil
  then show ?case by simp
next
  case (Cons s streams)
  have "no_panic (act s w)" using Cons.prems by simp
  then show ?case
  proof (cases rule: no_panic_cases)
    case (1 err)
    then show ?thesis by simp
  next
    case (2 u w1)
    have "no_panic (merge_loop act streams w1)"
      using Cons.IH[of w1] Cons.prems(1) 2(2) by simp
    then show ?thesis using 2 by (auto elim!: no_panic_cases)
  qed
qed

lemma interpreter_no_panic:
  "Next_set observer \<Longrightarrow> stored_ok w \<Longrightarrow> no_panic (observer_Next fuel observer v w)"
  "Next_set observer' \<Longrightarrow> stored_ok w' \<Longrightarrow> no_panic (activate fuel' s observer' w')"
proof (induction fuel observer v w and fuel' s observer' w' rule: observer_Next_activate.induct)
  case (3 fuel f observer e c v w)
  then show ?case by (cases v) auto
next
  case (4 fuel f observer e c v w)
  then show ?case by (cases v) auto
next
  case (5 fuel r n observer e c v w)
  then have "no_panic (observer_Next fuel observer v w)" by simp
  then show ?case by (cases rule: no_panic_cases) (auto simp: Let_def)
next
  case (6 fuel r f observer e c v w)
  then show ?case by (cases v) (auto simp: Let_def)
next
  case (7 fuel rs rf observer e c v w)
  show ?case
  proof (cases v)
    case (VInt x)
    then show ?thesis by simp
  next
    case (VStream s)
    show ?thesis
    proof (cases fuel)
      case 0
      then show ?thesis using VStream by simp
    next
      case (Suc f)
      show ?thesis
      proof (cases "case subs w rs of None \<Rightarrow> Inr w | Some innerSub \<Rightarrow> invoke f innerSub w")
        case (Inl err)
        then have "err \<noteq> NilDeref"
          using invoke_no_NilDeref(1) by (auto split: option.splits)
        then show ?thesis using VStream Suc Inl by simp
      next
        case (Inr w1)
        then have ok1: "stored_ok w1"
          using "7.prems"(2) invoke_stored_ok(1) by (auto split: option.splits)
        have "Next_set (Observer (Some (FlatInnerNext observer)) (Error observer)
                    (Some (FlatInnerComplete rs rf observer)))"
          using "7.prems"(1) by simp
        then have "no_panic (activate f s (Observer (Some (FlatInnerNext observer)) (Error observer)
                    (Some (FlatInnerComplete rs rf observer))) w1)"
          using "7.IH"[OF VStream Suc Inr] ok1 by simp
        then show ?thesis
          using VStream Suc Inr by (cases rule: no_panic_cases) auto
      qed
    qed
  qed
next
  case (10 fuel args observer w)
  have "no_panic (map_sum (\<lambda>err. err) (Pair ()) (from_loop (observer_Next fuel observer) args w))"
    using 10 by (intro from_loop_no_panic) auto
  then show ?case
    by (cases "from_loop (observer_Next fuel observer) args w")
       (auto simp: stored_ok_Complete_if_set)
next
  case (11 fuel observer w)
  then show ?case by (auto simp: Let_def stored_ok_def)
next
  case (17 fuel streams observer w)
  let ?obs = "Observer (Next observer) (Error observer)
                      (Some (MergeComplete (fresh w) (length streams) observer))"
  have ns: "Next_set ?obs" using "17.prems"(1) by (cases observer) simp
  have "no_panic (merge_loop (\<lambda>stream. activate fuel stream ?obs) streams
            (w\<lparr>ints := (ints w)(fresh w := 0), fresh := Suc (fresh w)\<rparr>))"
    using "17.IH"[OF refl _ ns] "17.prems"(2) by (intro merge_loop_no_panic) auto
  then show ?case
    by (cases rule: no_panic_cases) (auto simp: Let_def)
next
  case (18 fuel initialValue f source observer w)
  let ?w0 = "w\<lparr>accs := (accs w)(fresh w := initialValue), fresh := Suc (fresh w)\<rparr>"
  have "no_panic (observer_Next fuel observer (VInt initialValue) ?w0)"
    using 18 by simp
  then show ?case
  proof (cases rule: no_panic_cases)
    case (1 err)
    then show ?thesis by (simp add: Let_def)
  next
    case (2 ok w1)
    then show ?thesis using 18 by (auto simp: Let_def)
  qed
next
  case (19 fuel data source observer w)
  have "no_panic (observer_Next fuel observer data w)"
    using 19 by simp
  then show ?case
  proof (cases rule: no_panic_cases)
    case (1 err)
    then show ?thesis by simp
  next
    case (2 ok w1)
    then show ?thesis using 19 by auto
  qed
next
  case (20 fuel outer observer w)
  let ?obs = "Observer (Some (FlatOuterNext (fresh w) (Suc (fresh w)) observer)) (Error observer)
                   (Some (FlatOuterComplete (Suc (fresh w))))"
  let ?w0 = "w\<lparr>subs := (subs w)(fresh w := None),
                   flags := (flags w)(Suc (fresh w) := False),
                   fresh := Suc (Suc (fresh w))\<rparr>"
  have "no_panic (activate fuel outer ?obs ?w0)"
    using 20 by simp
  then show ?case
    by (cases rule: no_panic_cases) (auto simp: Let_def)
qed (auto simp: Let_def intro!: stored_ok_register)

lemma accept_no_panic: "stored_ok w \<Longrightarrow> no_panic (accept fuel obs t w)"
  by (auto simp: accept_def stored_ok_def interpreter_no_panic(1) split: option.splits)

lemma emit_no_panic:
  assumes "stored_ok w"
  shows "no_panic (map_sum (\<lambda>err. err) (Pair ()) (emit fuel listener e w))"
proof (cases "listeners w listener")
  case None
  then show ?thesis using assms by (simp add: emit_def)
next
  case (Some observer)
  then have "Next_set observer" using assms by (auto simp: stored_ok_def)
  then have "no_panic (observer_Next fuel observer e w)"
    using assms by (rule interpreter_no_panic(1))
  then show ?thesis using Some
    by (cases rule: no_panic_cases) (auto simp: emit_def)
qed

lemma tick_no_panic:
  assumes "stored_ok w"
  shows "no_panic (map_sum (\<lambda>err. err) (Pair ()) (tick fuel ticker w))"
proof (cases "procs w ticker")
  case None
  then show ?thesis using assms by (simp add: tick_def)
next
  case (Some g)
  obtain i dn unsub observer where g: "g = PeriodicLoop i dn unsub observer" by (cases g)
  have ns: "Next_set observer" using assms Some g by (auto simp: stored_ok_def)
  show ?thesis
  proof (cases "flags w dn")
    case True
    then show ?thesis using Some g assms by (simp add: tick_def stored_ok_unregister)
  next
    case False
    have "no_panic (observer_Next fuel observer (VInt (sint (ints w i))) w)"
      using ns assms by (rule interpreter_no_panic(1))
    then show ?thesis
    proof (cases rule: no_panic_cases)
      case (1 err)
      then show ?thesis using Some g False by (simp add: tick_def)
    next
      case (2 ok w1)
      show ?thesis
      proof (cases "if \<not> ok then invoke fuel unsub w1 else Inr w1")
        case (Inl err)
        then have "err \<noteq> NilDeref" using invoke_no_NilDeref(1) by (auto split: if_splits)
        then show ?thesis using Some g False 2 Inl by (simp add: tick_def)
      next
        case (Inr w2)
        then have "stored_ok w2" using 2(2) invoke_stored_ok(1) by (auto split: if_splits)
        then show ?thesis using Some g False 2 Inr by (simp add: tick_def)
      qed
    qed
  qed
qed

lemma run_no_panic:
  "stored_ok w \<Longrightarrow> no_panic (map_sum (\<lambda>err. err) (Pair ()) (run fuel calls w))"
proof (induction calls arbitrary: w)
  case Nil
  then show ?case by simp
next
  case (Cons c calls)
  show ?case
  proof (cases c)
    case (Push obs t)
    have "no_panic (accept fuel obs t w)" using Cons.prems by (rule accept_no_panic)
    then show ?thesis using Push Cons.IH by (cases rule: no_panic_cases) auto
  next
    case (Tick ticker)
    have "no_panic (map_sum (\<lambda>err. err) (Pair ()) (tick fuel ticker w))"
      using Cons.prems by (rule tick_no_panic)
    then show ?thesis using Tick Cons.IH by (cases "tick fuel ticker w") auto
  next
    case (Emit listener e)
    have "no_panic (map_sum (\<lambda>err. err) (Pair ()) (emit fuel listener e w))"
      using Cons.prems by (rule emit_no_panic)
    then show ?thesis using Emit Cons.IH by (cases "emit fuel listener e w") auto
  next
    case (Cancel unsub)
    show ?thesis
    proof (cases "invoke fuel unsub w")
      case (Inl err)
      then show ?thesis using Cancel invoke_no_NilDeref(1)[of fuel unsub w] by simp
    next
      case (Inr w1)
      then have "stored_ok w1" using Cons.prems invoke_stored_ok(1) by blast
      then show ?thesis using Cancel Inr Cons.IH by simp
    qed
  qed
qed

text \<open>
  C9. An Observer with a \<open>Next\<close>, whatever its \<open>Error\<close> and \<open>Complete\<close> are (nil, in
  particular), never makes the library call a nil function: not while any Stream built
  from the producers and operators is activated with it, and not in any sequence of
  pushes, ticks, listener events and cancellations that follows.
\<close>

theorem nil_Complete_never_panics:
  "closure_Next_set nxt \<and> stored_ok w \<longrightarrow>
     (case activate fuel s (Observer (Some nxt) e c) w of
        Inl err \<Rightarrow> err \<noteq> NilDeref
      | Inr (cancel, w1) \<Rightarrow> \<forall>calls. run fuel calls w1 \<noteq> Inl NilDeref)"
proof (intro impI, elim conjE)
  assume nxt: "closure_Next_set nxt" and w: "stored_ok w"
  have "Next_set (Observer (Some nxt) e c)" using nxt by simp
  then have "no_panic (activate fuel s (Observer (Some nxt) e c) w)"
    using w by (rule interpreter_no_panic(2))
  then show "case activate fuel s (Observer (Some nxt) e c) w of
        Inl err \<Rightarrow> err \<noteq> NilDeref
      | Inr (cancel, w1) \<Rightarrow> \<forall>calls. run fuel calls w1 \<noteq> Inl NilDeref"
  proof (cases rule: no_panic_cases)
    case (1 err)
    then show ?thesis by simp
  next
    case (2 cancel w1)
    have "run fuel calls w1 \<noteq> Inl NilDeref" for calls
      using run_no_panic[OF 2(2), of fuel calls] by (cases "run fuel calls w1") auto
    then show ?thesis using 2(1) by simp
  qed
qed

theorem nil_Complete_never_panics_witness:
  "closure_Next_set (UserNext (\<lambda>seen t. True)) \<and> stored_ok world0
   \<and> (case activate 0 (Merge [Periodic, From [VInt 10, VInt 20]])
             (Observer (Some (UserNext (\<lambda>seen t. True))) None None) world0 of
        Inl err \<Rightarrow> False
      | Inr (cancel, w1) \<Rightarrow>
          run 0 [Tick 4, Cancel cancel, Tick 4, Cancel cancel] w1 \<noteq> Inl NilDeref
          \<and> map_sum (\<lambda>err. err) trace (run 0 [Tick 4, Cancel cancel, Tick 4, Cancel cancel] w1)
              = Inr [NextEv (VInt 10), NextEv (VInt 20), NextEv (VInt 0), TickerStopEv 4])"
proof -
  have h: "closure_Next_set (UserNext (\<lambda>seen t. True)) \<and> stored_ok world0"
    by (simp add: stored_ok_def world0_def)
  have a: "\<exists>cancel w1. activate 0 (Merge [Periodic, From [VInt 10, VInt 20]])
             (Observer (Some (UserNext (\<lambda>seen t. True))) None None) world0 = Inr (cancel, w1)
      \<and> map_sum (\<lambda>err. err) trace (run 0 [Tick 4, Cancel cancel, Tick 4, Cancel cancel] w1)
              = Inr [NextEv (VInt 10), NextEv (VInt 20), NextEv (VInt 0), TickerStopEv 4]"
    by (simp add: world0_def Let_def log_def tick_def)
  show ?thesis
    using h a nil_Complete_never_panics[where nxt = "UserNext (\<lambda>seen t. True)" and w = world0
      and fuel = 0 and s = "Merge [Periodic, From [VInt 10, VInt 20]]" and e = None and c = None,
      THEN mp, OF h]
    by auto
qed

section \<open>Flatten: one inner Stream at a time\<close>

text \<open>
  When \<open>innerSub\<close> holds a Subscription, the outer \<open>Next\<close> invokes it and only then
  activates the Stream it received, whatever the two are.
\<close>

lemma Flatten_activate:
  "activate fuel (Flatten outer) observer w =
     (case activate fuel outer (Flatten_outer (fresh w) (Suc (fresh w)) observer)
             (w\<lparr>subs := (subs w)(fresh w := None),
                flags := (flags w)(Suc (fresh w) := False),
                fresh := Suc (Suc (fresh w))\<rparr>) of
        Inl err \<Rightarrow> Inl err
      | Inr (unsubscribe, w1) \<Rightarrow> Inr (FlattenUnsub unsubscribe (fresh w), w1))"
  by (simp add: Flatten_outer_def Let_def)

lemma Flatten_switch:
  "subs w rs = Some previous \<Longrightarrow>
   observer_Next (Suc fuel) (Flatten_outer rs rf observer) (VStream s) w =
     (case invoke fuel previous w of
        Inl err \<Rightarrow> Inl err
      | Inr w1 \<Rightarrow>
          (case activate fuel s (Flatten_inner rs rf observer) w1 of
             Inl err \<Rightarrow> Inl err
           | Inr (innerSub, w2) \<Rightarrow> Inr (True, w2\<lparr>subs := (subs w2)(rs := Some innerSub)\<rparr>)))"
  unfolding Flatten_outer_def Flatten_inner_def by simp

lemma Flatten_inner_Complete:
  "Complete_if_set (Flatten_inner rs rf (Subscriber decide)) w =
     (if flags w rf then log CompleteEv (w\<lparr>subs := (subs w)(rs := None)\<rparr>)
      else w\<lparr>subs := (subs w)(rs := None)\<rparr>)"
  by (simp add: Flatten_inner_def Subscriber_def Let_def)

lemma Flatten_inner_unsub:
  "\<exists>w'. invoke fuel (AcceptUnsub a (Flatten_inner rs rf (Subscriber decide)) c) w = Inr w'
     \<and> obss w' = (obss w)(a := None) \<and> subs w' = (subs w)(rs := None)"
  by (simp add: Flatten_inner_Complete Let_def log_def)

lemma Flatten_deliver:
  assumes "obss w outer = Some (Flatten_outer rs rf (Subscriber decide))"
    and "subs w rs = None \<or> subs w rs = Some (AcceptUnsub a (Flatten_inner rs rf (Subscriber decide)) c')"
  shows "\<exists>w'. accept (Suc fuel) outer (VStream (AcceptStream inner c)) w = Inr (True, w')
     \<and> obss w' = (if subs w rs = None then obss w else (obss w)(a := None))
                   (inner := Some (Flatten_inner rs rf (Subscriber decide)))
     \<and> subs w' rs = Some (AcceptUnsub inner (Flatten_inner rs rf (Subscriber decide)) c)"
proof (cases "subs w rs")
  case None
  then show ?thesis
    using assms(1) unfolding accept_def Flatten_outer_def Flatten_inner_def by simp
next
  case (Some u)
  then have u: "subs w rs = Some (AcceptUnsub a (Flatten_inner rs rf (Subscriber decide)) c')"
    using assms(2) by simp
  obtain w1 where w1: "invoke fuel (AcceptUnsub a (Flatten_inner rs rf (Subscriber decide)) c') w = Inr w1"
     "obss w1 = (obss w)(a := None)"
    using Flatten_inner_unsub[of fuel a rs rf decide c' w] by blast
  have "observer_Next (Suc fuel) (Flatten_outer rs rf (Subscriber decide)) (VStream (AcceptStream inner c)) w
     = Inr (True, w1\<lparr>obss := (obss w1)(inner := Some (Flatten_inner rs rf (Subscriber decide))),
                     subs := (subs w1)(rs := Some (AcceptUnsub inner (Flatten_inner rs rf (Subscriber decide)) c))\<rparr>)"
    by (subst Flatten_switch[OF u], subst w1(1)) simp
  then show ?thesis
    using assms(1) u w1(2) by (simp add: accept_def)
qed

lemma flatten_inv_deliver:
  assumes inv: "flatten_inv outer rs rf (Subscriber decide) w"
    and ne: "inner \<noteq> outer"
  shows "\<exists>ok w'. accept (Suc fuel) outer (VStream (AcceptStream inner completed)) w = Inr (ok, w')
           \<and> flatten_inv outer rs rf (Subscriber decide) w'"
proof (cases "obss w outer")
  case None
  then show ?thesis using inv by (auto simp: accept_def)
next
  case (Some ob)
  then have ob: "obss w outer = Some (Flatten_outer rs rf (Subscriber decide))"
    using inv by (auto simp: flatten_inv_def)
  show ?thesis
  proof (cases "subs w rs")
    case None
    then have all: "\<forall>b. b \<noteq> outer \<longrightarrow> obss w b = None"
      using inv by (simp add: flatten_inv_def)
    obtain w' where w': "accept (Suc fuel) outer (VStream (AcceptStream inner completed)) w = Inr (True, w')"
      "obss w' = (obss w)(inner := Some (Flatten_inner rs rf (Subscriber decide)))"
      "subs w' rs = Some (AcceptUnsub inner (Flatten_inner rs rf (Subscriber decide)) completed)"
      using Flatten_deliver[OF ob, of undefined undefined fuel inner completed] None by auto
    have "flatten_inv outer rs rf (Subscriber decide) w'"
      using w'(2,3) ob all ne by (auto simp: flatten_inv_def)
    then show ?thesis using w'(1) by blast
  next
    case (Some u)
    then obtain a c where u: "a \<noteq> outer"
       "subs w rs = Some (AcceptUnsub a (Flatten_inner rs rf (Subscriber decide)) c)"
       "\<forall>b. b \<noteq> outer \<and> b \<noteq> a \<longrightarrow> obss w b = None"
      using inv by (auto simp: flatten_inv_def)
    obtain w' where w': "accept (Suc fuel) outer (VStream (AcceptStream inner completed)) w = Inr (True, w')"
      "obss w' = (obss w)(a := None, inner := Some (Flatten_inner rs rf (Subscriber decide)))"
      "subs w' rs = Some (AcceptUnsub inner (Flatten_inner rs rf (Subscriber decide)) completed)"
      using Flatten_deliver[OF ob, of a c fuel inner completed] u(2) by auto
    have "flatten_inv outer rs rf (Subscriber decide) w'"
      using w'(2,3) ob u(1,3) ne by (auto simp: flatten_inv_def)
    then show ?thesis using w'(1) by blast
  qed
qed

lemma flatten_inv_push:
  assumes inv: "flatten_inv outer rs rf (Subscriber decide) w"
    and ne: "a \<noteq> outer"
  shows "\<exists>ok w'. accept (Suc fuel) a t w = Inr (ok, w')
           \<and> flatten_inv outer rs rf (Subscriber decide) w'"
proof (cases "obss w a")
  case None
  then show ?thesis using inv by (auto simp: accept_def)
next
  case (Some ob)
  then have ob: "ob = Flatten_inner rs rf (Subscriber decide)"
    using inv ne by (cases "subs w rs") (auto simp: flatten_inv_def)
  have "accept (Suc fuel) a t w = Inr (decide (trace w) t, log (NextEv t) w)"
    using Some ob by (simp add: accept_def Flatten_inner_def Subscriber_def)
  moreover have "flatten_inv outer rs rf (Subscriber decide) (log (NextEv t) w)"
    using inv by (auto simp: flatten_inv_def log_def split: option.splits)
  ultimately show ?thesis by blast
qed

lemma flatten_inv_cancel:
  assumes inv: "flatten_inv outer rs rf (Subscriber decide) w"
  shows "\<exists>w'. invoke (Suc fuel)
            (FlattenUnsub (AcceptUnsub outer (Flatten_outer rs rf (Subscriber decide)) completed) rs) w = Inr w'
           \<and> flatten_inv outer rs rf (Subscriber decide) w'"
proof -
  let ?w1 = "w\<lparr>obss := (obss w)(outer := None), flags := (flags w)(rf := True)\<rparr>"
  let ?w2 = "if completed then log CompletedEv ?w1 else ?w1"
  have outer: "invoke (Suc fuel) (AcceptUnsub outer (Flatten_outer rs rf (Subscriber decide)) completed) w
      = Inr ?w2"
    by (simp add: Flatten_outer_def Let_def)
  have w2: "obss ?w2 = (obss w)(outer := None)" "subs ?w2 = subs w"
    by (simp_all add: log_def)
  show ?thesis
  proof (cases "subs w rs")
    case None
    then have "invoke (Suc fuel)
            (FlattenUnsub (AcceptUnsub outer (Flatten_outer rs rf (Subscriber decide)) completed) rs) w = Inr ?w2"
      using outer w2(2) by (simp del: invoke.simps(3))
    moreover have "flatten_inv outer rs rf (Subscriber decide) ?w2"
      using inv None w2 by (simp add: flatten_inv_def)
    ultimately show ?thesis by blast
  next
    case (Some u)
    then obtain a c where u: "a \<noteq> outer"
       "subs w rs = Some (AcceptUnsub a (Flatten_inner rs rf (Subscriber decide)) c)"
       "\<forall>b. b \<noteq> outer \<and> b \<noteq> a \<longrightarrow> obss w b = None"
      using inv by (auto simp: flatten_inv_def)
    obtain w3 where w3: "invoke fuel (AcceptUnsub a (Flatten_inner rs rf (Subscriber decide)) c) ?w2 = Inr w3"
      "obss w3 = (obss ?w2)(a := None)" "subs w3 = (subs ?w2)(rs := None)"
      using Flatten_inner_unsub[of fuel a rs rf decide c ?w2] by blast
    have "invoke (Suc fuel)
            (FlattenUnsub (AcceptUnsub outer (Flatten_outer rs rf (Subscriber decide)) completed) rs) w = Inr w3"
      using outer w2(2) u(2) w3(1) by (simp del: invoke.simps(3))
    moreover have "flatten_inv outer rs rf (Subscriber decide) w3"
      using w3(2,3) w2 u(3) by (auto simp: flatten_inv_def)
    ultimately show ?thesis by blast
  qed
qed

lemma flatten_call_Push:
  "flatten_call outer cancel (Push a t) =
     (a = outer \<longrightarrow> (\<exists>inner c. t = VStream (AcceptStream inner c) \<and> inner \<noteq> outer))"
  by (cases "(outer, cancel, Push a t)" rule: flatten_call.cases) auto

lemma flatten_inv_run:
  assumes "cancel = FlattenUnsub (AcceptUnsub outer (Flatten_outer rs rf (Subscriber decide)) completed) rs"
  shows "flatten_inv outer rs rf (Subscriber decide) w \<Longrightarrow> list_all (flatten_call outer cancel) calls
    \<Longrightarrow> \<exists>w'. run (Suc fuel) calls w = Inr w' \<and> flatten_inv outer rs rf (Subscriber decide) w'"
proof (induction calls arbitrary: w)
  case Nil
  then show ?case by simp
next
  case (Cons c calls)
  have rest: "list_all (flatten_call outer cancel) calls" using Cons.prems(2) by simp
  have "\<exists>w1. run (Suc fuel) [c] w = Inr w1 \<and> flatten_inv outer rs rf (Subscriber decide) w1"
  proof (cases c)
    case (Push a t)
    show ?thesis
    proof (cases "a = outer")
      case True
      then obtain inner c' where t: "t = VStream (AcceptStream inner c')" "inner \<noteq> outer"
        using Cons.prems(2) Push by (auto simp: flatten_call_Push)
      obtain ok w1 where "accept (Suc fuel) outer (VStream (AcceptStream inner c')) w = Inr (ok, w1)"
          "flatten_inv outer rs rf (Subscriber decide) w1"
        using flatten_inv_deliver[OF Cons.prems(1) t(2)] by blast
      then show ?thesis using Push True t(1) by simp
    next
      case False
      obtain ok w1 where "accept (Suc fuel) a t w = Inr (ok, w1)"
          "flatten_inv outer rs rf (Subscriber decide) w1"
        using flatten_inv_push[OF Cons.prems(1) False] by blast
      then show ?thesis using Push by simp
    qed
  next
    case (Cancel unsub)
    then have "unsub = cancel" using Cons.prems(2) by simp
    moreover obtain w1 where "invoke (Suc fuel) cancel w = Inr w1"
          "flatten_inv outer rs rf (Subscriber decide) w1"
      using flatten_inv_cancel[OF Cons.prems(1)] assms by blast
    ultimately show ?thesis using Cancel by simp
  qed (use Cons.prems(2) in simp_all)
  then obtain w1 where w1: "run (Suc fuel) [c] w = Inr w1" "flatten_inv outer rs rf (Subscriber decide) w1"
    by blast
  obtain w' where "run (Suc fuel) calls w1 = Inr w'" "flatten_inv outer rs rf (Subscriber decide) w'"
    using Cons.IH[OF w1(2) rest] by blast
  moreover have "run (Suc fuel) (c # calls) w = run (Suc fuel) calls w1"
    using w1(1) by (cases c) (auto split: sum.splits)
  ultimately show ?case by simp
qed

lemma flatten_inv_one_active:
  assumes inv: "flatten_inv outer rs rf observer w"
    and a: "a \<noteq> outer" "obss w a \<noteq> None"
    and b: "b \<noteq> outer" "obss w b \<noteq> None"
  shows "a = b"
proof (cases "subs w rs")
  case None
  then have "\<forall>x. x \<noteq> outer \<longrightarrow> obss w x = None"
    using inv by (simp add: flatten_inv_def)
  then show ?thesis using a by simp
next
  case (Some u)
  then have "\<exists>i. \<forall>x. x \<noteq> outer \<and> x \<noteq> i \<longrightarrow> obss w x = None"
    using inv unfolding flatten_inv_def by auto
  then obtain i where i: "\<forall>x. x \<noteq> outer \<and> x \<noteq> i \<longrightarrow> obss w x = None" ..
  have "a = i" using i a by (cases "a = i") simp_all
  moreover have "b = i" using i b by (cases "b = i") simp_all
  ultimately show ?thesis by simp
qed

text \<open>
  C8. \<open>Flatten\<close> never has two inner Streams active. When the outer Stream delivers a
  Stream while \<open>innerSub\<close> holds a Subscription, that Subscription is invoked first and the
  new Stream activated on the store it leaves. With Streams built by \<open>Accept\<close>, started
  where none is active: after any sequence of deliveries, pushes and cancellations at most
  one inner Stream is registered; every prefix of such a sequence is one, so this holds at
  any time.
\<close>

theorem Flatten_one_inner_active:
  "(subs w rs = Some previous \<longrightarrow>
      observer_Next (Suc fuel) (Flatten_outer rs rf observer) (VStream s) w =
        (case invoke fuel previous w of
           Inl err \<Rightarrow> Inl err
         | Inr w1 \<Rightarrow>
             (case activate fuel s (Flatten_inner rs rf observer) w1 of
                Inl err \<Rightarrow> Inl err
              | Inr (innerSub, w2) \<Rightarrow> Inr (True, w2\<lparr>subs := (subs w2)(rs := Some innerSub)\<rparr>))))
   \<and> ((\<forall>a. obss w a = None)
      \<and> activate fuel (Flatten (AcceptStream outer completed)) (Subscriber decide) w = Inr (cancel, w0)
      \<and> list_all (flatten_call outer cancel) calls \<longrightarrow>
      (\<exists>w'. run (Suc fuel) calls w0 = Inr w'
         \<and> (\<forall>a b. a \<noteq> outer \<and> b \<noteq> outer \<and> obss w' a \<noteq> None \<and> obss w' b \<noteq> None \<longrightarrow> a = b)))"
proof (intro conjI impI; (elim conjE)?)
  assume "subs w rs = Some previous"
  then show "observer_Next (Suc fuel) (Flatten_outer rs rf observer) (VStream s) w =
        (case invoke fuel previous w of
           Inl err \<Rightarrow> Inl err
         | Inr w1 \<Rightarrow>
             (case activate fuel s (Flatten_inner rs rf observer) w1 of
                Inl err \<Rightarrow> Inl err
              | Inr (innerSub, w2) \<Rightarrow> Inr (True, w2\<lparr>subs := (subs w2)(rs := Some innerSub)\<rparr>)))"
    by (rule Flatten_switch)
next
  assume none: "\<forall>a. obss w a = None"
    and act: "activate fuel (Flatten (AcceptStream outer completed)) (Subscriber decide) w = Inr (cancel, w0)"
    and calls: "list_all (flatten_call outer cancel) calls"
  let ?rs = "fresh w" and ?rf = "Suc (fresh w)"
  have cancel: "cancel = FlattenUnsub (AcceptUnsub outer (Flatten_outer ?rs ?rf (Subscriber decide)) completed) ?rs"
    and w0: "w0 = w\<lparr>subs := (subs w)(?rs := None), flags := (flags w)(?rf := False),
                    fresh := Suc ?rf,
                    obss := (obss w)(outer := Some (Flatten_outer ?rs ?rf (Subscriber decide)))\<rparr>"
    using act by (auto simp: Flatten_outer_def Let_def)
  have "flatten_inv outer ?rs ?rf (Subscriber decide) w0"
    using none by (simp add: w0 flatten_inv_def)
  then obtain w' where w': "run (Suc fuel) calls w0 = Inr w'"
     "flatten_inv outer ?rs ?rf (Subscriber decide) w'"
    using flatten_inv_run[OF cancel _ calls] by blast
  show "\<exists>w'. run (Suc fuel) calls w0 = Inr w'
      \<and> (\<forall>a b. a \<noteq> outer \<and> b \<noteq> outer \<and> obss w' a \<noteq> None \<and> obss w' b \<noteq> None \<longrightarrow> a = b)"
    using w'(1) flatten_inv_one_active[OF w'(2)] by blast
qed

theorem Flatten_one_inner_active_witness:
  "(\<forall>a. obss (world0\<lparr>fresh := 3\<rparr>) a = None)
   \<and> (case activate 0 (Flatten (AcceptStream 0 False)) (Subscriber (\<lambda>seen t. True)) (world0\<lparr>fresh := 3\<rparr>) of
        Inl err \<Rightarrow> False
      | Inr (cancel, w0) \<Rightarrow>
          list_all (flatten_call 0 cancel)
            [Push 0 (VStream (AcceptStream 1 False)), Push 1 (VInt 7),
             Push 0 (VStream (AcceptStream 2 False)), Push 1 (VInt 8), Push 2 (VInt 9)]
          \<and> (case run 1 [Push 0 (VStream (AcceptStream 1 False)), Push 1 (VInt 7),
                          Push 0 (VStream (AcceptStream 2 False)), Push 1 (VInt 8), Push 2 (VInt 9)] w0 of
                Inl err \<Rightarrow> False
              | Inr w' \<Rightarrow> obss w' 1 = None \<and> obss w' 2 \<noteq> None
                  \<and> trace w' = [NextEv (VInt 7), NextEv (VInt 9)]))"
proof -
  define W where "W = world0\<lparr>fresh := 3\<rparr>"
  define C where "C = FlattenUnsub (AcceptUnsub 0 (Flatten_outer 3 4 (Subscriber (\<lambda>seen t. True))) False) 3"
  define W0 where "W0 = W\<lparr>subs := (subs W)(3 := None), flags := (flags W)(4 := False), fresh := 5,
       obss := (obss W)(0 := Some (Flatten_outer 3 4 (Subscriber (\<lambda>seen t. True))))\<rparr>"
  define calls where "calls = [Push 0 (VStream (AcceptStream 1 False)), Push 1 (VInt 7),
             Push 0 (VStream (AcceptStream 2 False)), Push 1 (VInt 8), Push 2 (VInt 9)]"
  have none: "\<forall>a. obss W a = None" by (simp add: W_def world0_def)
  have act: "activate 0 (Flatten (AcceptStream 0 False)) (Subscriber (\<lambda>seen t. True)) W = Inr (C, W0)"
    by (simp add: W_def C_def W0_def Flatten_outer_def Let_def world0_def Subscriber_def)
  have ok: "list_all (flatten_call 0 C) calls" by (simp add: calls_def)
  have "\<exists>w'. run (Suc 0) calls W0 = Inr w'
      \<and> (\<forall>a b. a \<noteq> 0 \<and> b \<noteq> 0 \<and> obss w' a \<noteq> None \<and> obss w' b \<noteq> None \<longrightarrow> a = b)"
    using Flatten_one_inner_active[where w = W and fuel = 0 and outer = 0
        and completed = False and decide = "\<lambda>seen t. True" and cancel = C and ?w0.0 = W0
        and calls = calls, THEN conjunct2, THEN mp, OF conjI[OF none conjI[OF act ok]]] .
  then obtain w' where run: "run (Suc 0) calls W0 = Inr w'"
    and one: "\<forall>a b. a \<noteq> 0 \<and> b \<noteq> 0 \<and> obss w' a \<noteq> None \<and> obss w' b \<noteq> None \<longrightarrow> a = b"
    by blast
  have ev: "\<exists>w''. run (Suc 0) calls W0 = Inr w'' \<and> obss w'' 2 \<noteq> None
      \<and> trace w'' = [NextEv (VInt 7), NextEv (VInt 9)]"
    by (simp add: calls_def W0_def W_def Flatten_outer_def world0_def accept_def Subscriber_def log_def)
  then have two: "obss w' 2 \<noteq> None" and tr: "trace w' = [NextEv (VInt 7), NextEv (VInt 9)]"
    using run by auto
  have "obss w' 1 = None"
  proof (rule ccontr)
    assume "obss w' 1 \<noteq> None"
    then have "(1::nat) = 2" using one[rule_format, of 1 2] two by simp
    then show False by simp
  qed
  then have main: "case Inr (C, W0) of
        Inl err \<Rightarrow> False
      | Inr (cancel, w0) \<Rightarrow>
          list_all (flatten_call 0 cancel) calls
          \<and> (case run 1 calls w0 of
                Inl err \<Rightarrow> False
              | Inr w' \<Rightarrow> obss w' 1 = None \<and> obss w' 2 \<noteq> None
                  \<and> trace w' = [NextEv (VInt 7), NextEv (VInt 9)])"
    using ok run two tr by simp
  from none main show ?thesis
    unfolding W_def[symmetric] calls_def[symmetric] act by (rule conjI)
qed

end
